theory Spec2Isabelle
  imports Main "HOL-Library.Word"
begin

unbundle bit_operations_syntax

section \<open>The DS2482 1-Wire bridge driver (src/OneWire.cpp)\<close>

text \<open>
  The driver talks to the bridge chip through the Arduino \<^verbatim>\<open>Wire\<close> object. Every
  function of \<^verbatim>\<open>OneWire.cpp\<close> that the properties below are about is translated here
  into a function on one explicit state: the fields of the \<^verbatim>\<open>OneWire\<close> object together
  with the two-wire bus as the driver sees it.
\<close>

type_synonym u8 = "8 word"

subsection \<open>Constants of OneWire.h\<close>

text \<open>
  The header \<^verbatim>\<open>OneWire.h\<close> that defines the macros \<^verbatim>\<open>DS2482_*\<close> and \<^verbatim>\<open>WIRE_COMMAND_*\<close> is
  not among the sources. The functions take the macros as a parameter \<open>k\<close>, a record
  with one field per macro. Every macro is used as a byte (a command or register byte
  handed to \<^verbatim>\<open>writeByte(uint8_t)\<close>, a mask applied to a \<^verbatim>\<open>uint8_t\<close>, or a value stored in
  the byte \<^verbatim>\<open>mError\<close>), so the fields are bytes.
\<close>

record ds2482_defs =
  DS2482_COMMAND_RESET :: u8
  DS2482_COMMAND_SRP :: u8
  DS2482_POINTER_STATUS :: u8
  DS2482_POINTER_DATA :: u8
  DS2482_POINTER_CONFIG :: u8
  DS2482_COMMAND_WRITECONFIG :: u8
  DS2482_COMMAND_RESETWIRE :: u8
  DS2482_COMMAND_WRITEBYTE :: u8
  DS2482_COMMAND_READBYTE :: u8
  DS2482_COMMAND_SINGLEBIT :: u8
  DS2482_COMMAND_TRIPLET :: u8
  DS2482_STATUS_BUSY :: u8
  DS2482_STATUS_PPD :: u8
  DS2482_STATUS_SD :: u8
  DS2482_STATUS_SBR :: u8
  DS2482_STATUS_TSB :: u8
  DS2482_STATUS_DIR :: u8
  DS2482_CONFIG_SPU :: u8
  DS2482_ERROR_TIMEOUT :: u8
  DS2482_ERROR_SHORT :: u8
  DS2482_ERROR_CONFIG :: u8
  WIRE_COMMAND_SKIP :: u8
  WIRE_COMMAND_SELECT :: u8
  WIRE_COMMAND_SEARCH :: u8

text \<open>
  The values of the DS2482-100 data sheet (command bytes, register pointers, the bits of
  the status and configuration registers) and of the 1-Wire ROM commands. They are used
  for the concrete runs only; no general theorem depends on them.
\<close>

definition datasheet :: ds2482_defs where
  "datasheet = \<lparr>
     DS2482_COMMAND_RESET = 0xF0,
     DS2482_COMMAND_SRP = 0xE1,
     DS2482_POINTER_STATUS = 0xF0,
     DS2482_POINTER_DATA = 0xE1,
     DS2482_POINTER_CONFIG = 0xC3,
     DS2482_COMMAND_WRITECONFIG = 0xD2,
     DS2482_COMMAND_RESETWIRE = 0xB4,
     DS2482_COMMAND_WRITEBYTE = 0xA5,
     DS2482_COMMAND_READBYTE = 0x96,
     DS2482_COMMAND_SINGLEBIT = 0x87,
     DS2482_COMMAND_TRIPLET = 0x78,
     DS2482_STATUS_BUSY = 0x01,
     DS2482_STATUS_PPD = 0x02,
     DS2482_STATUS_SD = 0x04,
     DS2482_STATUS_SBR = 0x20,
     DS2482_STATUS_TSB = 0x40,
     DS2482_STATUS_DIR = 0x80,
     DS2482_CONFIG_SPU = 0x04,
     DS2482_ERROR_TIMEOUT = 0x01,
     DS2482_ERROR_SHORT = 0x02,
     DS2482_ERROR_CONFIG = 0x04,
     WIRE_COMMAND_SKIP = 0xCC,
     WIRE_COMMAND_SELECT = 0x55,
     WIRE_COMMAND_SEARCH = 0xF0 \<rparr>"

subsection \<open>State: the OneWire object and the two-wire bus\<close>

text \<open>
  What the driver does on the bus is logged, newest event first. What the bus gives
  back is not computed by the driver: \<open>wire_incoming s n\<close> is the \<^verbatim>\<open>int\<close> the \<open>n\<close>-th call of
  \<^verbatim>\<open>Wire.read()\<close> returns (a byte, or -1 when nothing was received), and \<open>wire_acks s n\<close>
  the result of the \<open>n\<close>-th \<^verbatim>\<open>Wire.endTransmission()\<close>. Both are arbitrary, so the theorems
  hold for every bridge, also a faulty one.
\<close>

datatype wire_event =
    BeginTransmission u8
  | WireWrite u8
  | EndTransmission
  | RequestFrom u8 nat
  | WireRead u8
  | DelayMicroseconds nat

record machine =
  mAddress :: u8
  mError :: u8
  searchLastDiscrepancy :: u8
  searchLastDeviceFlag :: u8
  searchAddress :: "u8 list"
  wire_incoming :: "nat \<Rightarrow> int"
  wire_taken :: nat
  wire_acks :: "nat \<Rightarrow> u8"
  wire_ended :: nat
  wire_log :: "wire_event list"

definition emit :: "wire_event \<Rightarrow> machine \<Rightarrow> machine" where
  "emit e s = s\<lparr>wire_log := e # wire_log s\<rparr>"

text \<open>The log in the order the bridge sees it, oldest event first.\<close>

definition history :: "machine \<Rightarrow> wire_event list" where
  "history s = rev (wire_log s)"

subsection \<open>Helpers of the I2C side (lines 46 to 64)\<close>

text \<open>\<^verbatim>\<open>begin()\<close>, \<^verbatim>\<open>end()\<close>, \<^verbatim>\<open>writeByte()\<close>, \<^verbatim>\<open>readByte()\<close> and \<^verbatim>\<open>delayMicroseconds()\<close>.\<close>

definition wire_begin :: "machine \<Rightarrow> machine" where
  "wire_begin s = emit (BeginTransmission (mAddress s)) s"

definition wire_end :: "machine \<Rightarrow> u8 \<times> machine" where
  "wire_end s =
     (wire_acks s (wire_ended s), (emit EndTransmission s)\<lparr>wire_ended := Suc (wire_ended s)\<rparr>)"

definition writeByte :: "u8 \<Rightarrow> machine \<Rightarrow> machine" where
  "writeByte data s = emit (WireWrite data) s"

text \<open>The byte that the \<open>n\<close>-th read yields where its result is narrowed to \<^verbatim>\<open>uint8_t\<close>.\<close>

definition incoming_byte :: "machine \<Rightarrow> nat \<Rightarrow> u8" where
  "incoming_byte s n = word_of_int (wire_incoming s n)"

definition readByte :: "machine \<Rightarrow> u8 \<times> machine" where
  "readByte s =
     (let b = incoming_byte s (wire_taken s);
          s1 = emit (RequestFrom (mAddress s) 1) s;
          s2 = emit (WireRead b) s1
      in (b, s2\<lparr>wire_taken := Suc (wire_taken s)\<rparr>))"

definition delayMicroseconds :: "nat \<Rightarrow> machine \<Rightarrow> machine" where
  "delayMicroseconds us s = emit (DelayMicroseconds us) s"

subsection \<open>Registers (lines 86 to 118)\<close>

definition setReadPointer :: "ds2482_defs \<Rightarrow> u8 \<Rightarrow> machine \<Rightarrow> machine" where
  "setReadPointer k readPointer s =
     (let s1 = wire_begin s;
          s2 = writeByte (DS2482_COMMAND_SRP k) s1;
          s3 = writeByte readPointer s2
      in snd (wire_end s3))"

definition readStatus :: "ds2482_defs \<Rightarrow> machine \<Rightarrow> u8 \<times> machine" where
  "readStatus k s = readByte (setReadPointer k (DS2482_POINTER_STATUS k) s)"

definition readData :: "ds2482_defs \<Rightarrow> machine \<Rightarrow> u8 \<times> machine" where
  "readData k s = readByte (setReadPointer k (DS2482_POINTER_DATA k) s)"

definition readConfig :: "ds2482_defs \<Rightarrow> machine \<Rightarrow> u8 \<times> machine" where
  "readConfig k s = readByte (setReadPointer k (DS2482_POINTER_CONFIG k) s)"

subsection \<open>Waiting for the busy bit (lines 159 to 182)\<close>

text \<open>
  The \<^verbatim>\<open>for\<close> loop of \<^verbatim>\<open>waitOnBusy\<close>, by recursion on its counter \<open>i\<close>. \<open>status\<close> is the
  local variable: it is returned as it stands when the counter has reached 0, and a
  read with the busy bit clear leaves the loop at once (\<^verbatim>\<open>break\<close>).
\<close>

fun waitOnBusy_loop :: "ds2482_defs \<Rightarrow> nat \<Rightarrow> u8 \<Rightarrow> machine \<Rightarrow> u8 \<times> machine" where
  "waitOnBusy_loop k 0 status s = (status, s)"
| "waitOnBusy_loop k (Suc i) status s =
     (case readStatus k s of (status', s1) \<Rightarrow>
        if status' AND DS2482_STATUS_BUSY k = 0 then (status', s1)
        else waitOnBusy_loop k i status' (delayMicroseconds 20 s1))"

text \<open>
  \<^verbatim>\<open>status\<close> is declared without a value; the loop starts at 1000, so its body runs and
  assigns it before it is read. The model starts it at 0.
\<close>

definition waitOnBusy :: "ds2482_defs \<Rightarrow> machine \<Rightarrow> u8 \<times> machine" where
  "waitOnBusy k s =
     (case waitOnBusy_loop k 1000 0 s of (status, s1) \<Rightarrow>
        if status AND DS2482_STATUS_BUSY k \<noteq> 0
        then (status, s1\<lparr>mError := DS2482_ERROR_TIMEOUT k\<rparr>)
        else (status, s1))"

subsection \<open>The configuration register (lines 138 to 150 and 185 to 206)\<close>

text \<open>
  The payload \<^verbatim>\<open>config | (~config)<<4\<close> is computed on \<^verbatim>\<open>int\<close>, to which C promotes the
  byte, and narrowed to a byte by \<^verbatim>\<open>writeByte(uint8_t)\<close>.
\<close>

definition config_payload :: "u8 \<Rightarrow> u8" where
  "config_payload config = word_of_int (uint config OR push_bit 4 (NOT (uint config)))"

definition writeConfig :: "ds2482_defs \<Rightarrow> u8 \<Rightarrow> machine \<Rightarrow> machine" where
  "writeConfig k config s =
     (let s1 = snd (waitOnBusy k s);
          s2 = wire_begin s1;
          s3 = writeByte (DS2482_COMMAND_WRITECONFIG k) s2;
          s4 = writeByte (config_payload config) s3;
          s5 = snd (wire_end s4)
      in case readByte s5 of (b, s6) \<Rightarrow>
           if b \<noteq> config then s6\<lparr>mError := DS2482_ERROR_CONFIG k\<rparr> else s6)"

text \<open>C's logical negation \<^verbatim>\<open>!x\<close>: 1 when \<open>x\<close> is 0, and 0 otherwise.\<close>

definition logical_not :: "u8 \<Rightarrow> u8" where
  "logical_not x = (if x = 0 then 1 else 0)"

definition setStrongPullup :: "ds2482_defs \<Rightarrow> machine \<Rightarrow> machine" where
  "setStrongPullup k s =
     (case readConfig k s of (c, s1) \<Rightarrow> writeConfig k (c OR DS2482_CONFIG_SPU k) s1)"

definition clearStrongPullup :: "ds2482_defs \<Rightarrow> machine \<Rightarrow> machine" where
  "clearStrongPullup k s =
     (case readConfig k s of (c, s1) \<Rightarrow>
        writeConfig k (c AND logical_not (DS2482_CONFIG_SPU k)) s1)"

subsection \<open>1-Wire reset (lines 217 to 241)\<close>

definition wireReset :: "ds2482_defs \<Rightarrow> machine \<Rightarrow> u8 \<times> machine" where
  "wireReset k s =
     (let s1 = snd (waitOnBusy k s);
          s2 = clearStrongPullup k s1;
          s3 = snd (waitOnBusy k s2);
          s4 = wire_begin s3;
          s5 = writeByte (DS2482_COMMAND_RESETWIRE k) s4;
          s6 = snd (wire_end s5)
      in case waitOnBusy k s6 of (status, s7) \<Rightarrow>
           let s8 = (if status AND DS2482_STATUS_SD k \<noteq> 0
                     then s7\<lparr>mError := DS2482_ERROR_SHORT k\<rparr> else s7)
           in (if status AND DS2482_STATUS_PPD k \<noteq> 0 then 1 else 0, s8))"

subsection \<open>Bytes and bits on the 1-Wire line (lines 253 to 356)\<close>

text \<open>\<open>pwr\<close> is the optional second argument \<^verbatim>\<open>power\<close>; a call that leaves it out passes 0.\<close>

definition wireWriteByte :: "ds2482_defs \<Rightarrow> u8 \<Rightarrow> u8 \<Rightarrow> machine \<Rightarrow> machine" where
  "wireWriteByte k data pwr s =
     (let s1 = snd (waitOnBusy k s);
          s2 = (if pwr \<noteq> 0 then setStrongPullup k s1 else s1);
          s3 = wire_begin s2;
          s4 = writeByte (DS2482_COMMAND_WRITEBYTE k) s3;
          s5 = writeByte data s4
      in snd (wire_end s5))"

definition wireReadByte :: "ds2482_defs \<Rightarrow> machine \<Rightarrow> u8 \<times> machine" where
  "wireReadByte k s =
     (let s1 = snd (waitOnBusy k s);
          s2 = wire_begin s1;
          s3 = writeByte (DS2482_COMMAND_READBYTE k) s2;
          s4 = snd (wire_end s3);
          s5 = snd (waitOnBusy k s4)
      in readData k s5)"

definition wireWriteBit :: "ds2482_defs \<Rightarrow> u8 \<Rightarrow> u8 \<Rightarrow> machine \<Rightarrow> machine" where
  "wireWriteBit k data pwr s =
     (let s1 = snd (waitOnBusy k s);
          s2 = (if pwr \<noteq> 0 then setStrongPullup k s1 else s1);
          s3 = wire_begin s2;
          s4 = writeByte (DS2482_COMMAND_SINGLEBIT k) s3;
          s5 = writeByte (if data \<noteq> 0 then 0x80 else 0x00) s4
      in snd (wire_end s5))"

definition wireReadBit :: "ds2482_defs \<Rightarrow> machine \<Rightarrow> u8 \<times> machine" where
  "wireReadBit k s =
     (case waitOnBusy k (wireWriteBit k 1 0 s) of (status, s1) \<Rightarrow>
        (if status AND DS2482_STATUS_SBR k \<noteq> 0 then 1 else 0, s1))"

definition wireSkip :: "ds2482_defs \<Rightarrow> machine \<Rightarrow> machine" where
  "wireSkip k s = wireWriteByte k (WIRE_COMMAND_SKIP k) 0 s"

text \<open>\<^verbatim>\<open>rom\<close> is an array of 8 bytes; the loop writes \<^verbatim>\<open>rom[0]\<close> to \<^verbatim>\<open>rom[7]\<close> in this order.
  (\<open>perform\<close> below refuses a shorter array.)\<close>

definition wireSelect :: "ds2482_defs \<Rightarrow> u8 list \<Rightarrow> machine \<Rightarrow> machine" where
  "wireSelect k rom s =
     fold (\<lambda>i s'. wireWriteByte k (rom ! i) 0 s') [0..<8]
       (wireWriteByte k (WIRE_COMMAND_SELECT k) 0 s)"

text \<open>
  \<^verbatim>\<open>checkPresence\<close> is the one caller that looks at the result of \<^verbatim>\<open>end()\<close>;
  \<^verbatim>\<open>deviceReset\<close> sends its command through \<^verbatim>\<open>write\<close>, which is \<^verbatim>\<open>wireWriteByte\<close>
  (lines 573 to 575).
\<close>

definition checkPresence :: "machine \<Rightarrow> u8 \<times> machine" where
  "checkPresence s =
     (case wire_end (wire_begin s) of (ack, s1) \<Rightarrow> (if ack = 0 then 1 else 0, s1))"

definition deviceReset :: "ds2482_defs \<Rightarrow> machine \<Rightarrow> machine" where
  "deviceReset k s = snd (wire_end (wireWriteByte k (DS2482_COMMAND_RESET k) 0 (wire_begin s)))"

subsection \<open>The ROM search (lines 359 to 434)\<close>

definition wireResetSearch :: "machine \<Rightarrow> machine" where
  "wireResetSearch s =
     (let s1 = s\<lparr>searchLastDiscrepancy := 0\<rparr>;
          s2 = s1\<lparr>searchLastDeviceFlag := 0\<rparr>
      in fold (\<lambda>i s'. s'\<lparr>searchAddress := (searchAddress s')[i := 0]\<rparr>) [0..<8] s2)"

text \<open>
  One pass of the \<^verbatim>\<open>for\<close> loop of \<^verbatim>\<open>wireSearch\<close> is cut in three: the choice of the
  direction to force (lines 387 to 394), the triplet command and the status it leaves
  (lines 396 to 402), and the store of the chosen direction (lines 416 to 420).
  \<^verbatim>\<open>searchBit\<close> is an \<^verbatim>\<open>int\<close> between 1 and 128, so \<^verbatim>\<open>searchAddress[searchByte] & searchBit\<close>
  fits the byte \<^verbatim>\<open>direction\<close>, and the byte that \<^verbatim>\<open>&= ~searchBit\<close> stores is the old byte
  with this one bit cleared.
\<close>

definition searchByte :: "u8 \<Rightarrow> nat" where
  "searchByte i = unat i div 8"

definition searchBit :: "u8 \<Rightarrow> u8" where
  "searchBit i = push_bit (unat i mod 8) 1"

definition search_direction :: "machine \<Rightarrow> u8 \<Rightarrow> u8" where
  "search_direction s i =
     (if i < searchLastDiscrepancy s then searchAddress s ! searchByte i AND searchBit i
      else if i = searchLastDiscrepancy s then 1 else 0)"

definition wireSearch_triplet :: "ds2482_defs \<Rightarrow> u8 \<Rightarrow> machine \<Rightarrow> u8 \<times> machine" where
  "wireSearch_triplet k i s =
     (let direction = search_direction s i;
          s1 = snd (waitOnBusy k s);
          s2 = wire_begin s1;
          s3 = writeByte (DS2482_COMMAND_TRIPLET k) s2;
          s4 = writeByte (if direction \<noteq> 0 then 0x80 else 0x00) s3;
          s5 = snd (wire_end s4)
      in waitOnBusy k s5)"

definition wireSearch_store :: "u8 \<Rightarrow> u8 \<Rightarrow> machine \<Rightarrow> machine" where
  "wireSearch_store direction i s =
     (if direction \<noteq> 0
      then s\<lparr>searchAddress :=
             (searchAddress s)[searchByte i := searchAddress s ! searchByte i OR searchBit i]\<rparr>
      else s\<lparr>searchAddress :=
             (searchAddress s)[searchByte i := searchAddress s ! searchByte i AND NOT (searchBit i)]\<rparr>)"

text \<open>
  The loop, from the value \<open>i\<close> of its counter on. It gives \<open>None\<close> when the pass is left
  by \<^verbatim>\<open>return 0\<close> (line 409), and \<open>Some last_zero\<close> when the counter has reached 64.
\<close>

function wireSearch_loop ::
  "ds2482_defs \<Rightarrow> u8 \<Rightarrow> u8 \<Rightarrow> machine \<Rightarrow> u8 option \<times> machine" where
  "wireSearch_loop k i last_zero s =
     (if i < 64 then
        (case wireSearch_triplet k i s of (status, s1) \<Rightarrow>
           if status AND DS2482_STATUS_SBR k \<noteq> 0 \<and> status AND DS2482_STATUS_TSB k \<noteq> 0
           then (None, s1)
           else wireSearch_loop k (i + 1)
                  (if status AND DS2482_STATUS_SBR k = 0 \<and> status AND DS2482_STATUS_TSB k = 0
                      \<and> status AND DS2482_STATUS_DIR k = 0
                   then i else last_zero)
                  (wireSearch_store (status AND DS2482_STATUS_DIR k) i s1))
      else (Some last_zero, s))"
  by pat_completeness auto
termination
proof (relation "measure (\<lambda>(k, i, last_zero, s). 64 - unat i)")
  show "wf (measure (\<lambda>(k, i, last_zero, s). 64 - unat i))"
    by simp
next
  fix k :: ds2482_defs and i last_zero :: u8 and s :: machine and x :: "u8 \<times> machine"
    and status :: u8 and s1 :: machine
  assume "i < 64"
  then have "unat i < 64"
    by (simp add: word_less_nat_alt)
  then have "unat (i + 1) = unat i + 1"
    by (simp add: unat_word_ariths)
  with \<open>unat i < 64\<close>
  show "((k, i + 1,
          if status AND DS2482_STATUS_SBR k = 0 \<and> status AND DS2482_STATUS_TSB k = 0
             \<and> status AND DS2482_STATUS_DIR k = 0
          then i else last_zero,
          wireSearch_store (status AND DS2482_STATUS_DIR k) i s1), k, i, last_zero, s)
        \<in> measure (\<lambda>(k, i, last_zero, s). 64 - unat i)"
    by simp
qed

text \<open>
  \<open>address\<close> is the caller's array. The result is the returned byte, the caller's array
  after the call, and the state.
\<close>

definition wireSearch :: "ds2482_defs \<Rightarrow> u8 list \<Rightarrow> machine \<Rightarrow> u8 \<times> u8 list \<times> machine" where
  "wireSearch k address s =
     (if searchLastDeviceFlag s \<noteq> 0 then (0, address, s)
      else case wireReset k s of (present, s1) \<Rightarrow>
        if present = 0 then (0, address, s1)
        else
          let s2 = snd (waitOnBusy k s1);
              s3 = wireWriteByte k (WIRE_COMMAND_SEARCH k) 0 s2
          in case wireSearch_loop k 0 0 s3 of
               (None, s4) \<Rightarrow> (0, address, s4)
             | (Some last_zero, s4) \<Rightarrow>
                 let s5 = s4\<lparr>searchLastDiscrepancy := last_zero\<rparr>;
                     s6 = (if last_zero = 0 then s5\<lparr>searchLastDeviceFlag := 1\<rparr> else s5)
                 in (1, fold (\<lambda>i a. a[i := searchAddress s6 ! i]) [0..<8] address, s6))"

subsection \<open>Several bytes in one transaction (lines 269 to 300)\<close>

text \<open>
  The strong pullup that \<^verbatim>\<open>wireWriteBytes\<close> sets before a byte (lines 279 to 290), inside
  the open transaction. Here \<^verbatim>\<open>Wire.read()\<close> is compared as the \<^verbatim>\<open>int\<close> it returns.
  \<^verbatim>\<open>Wire.write\<close> is what \<^verbatim>\<open>writeByte\<close> calls, so it is modelled by \<open>writeByte\<close>.
\<close>

definition wireWriteBytes_pullup :: "ds2482_defs \<Rightarrow> machine \<Rightarrow> machine" where
  "wireWriteBytes_pullup k s =
     (let s1 = writeByte (DS2482_COMMAND_SRP k) s;
          s2 = writeByte (DS2482_POINTER_CONFIG k) s1;
          s3 = emit (RequestFrom (mAddress s) 1) s2;
          cfgreg = incoming_byte s (wire_taken s) OR DS2482_CONFIG_SPU k;
          s4 = emit (WireRead (incoming_byte s (wire_taken s))) s3;
          s5 = writeByte (DS2482_COMMAND_WRITECONFIG k) s4;
          s6 = writeByte (config_payload cfgreg) s5;
          s7 = emit (RequestFrom (mAddress s) 1) s6;
          s8 = (emit (WireRead (incoming_byte s (Suc (wire_taken s)))) s7)
                 \<lparr>wire_taken := Suc (Suc (wire_taken s))\<rparr>
      in if wire_incoming s (Suc (wire_taken s)) \<noteq> uint cfgreg
         then s8\<lparr>mError := DS2482_ERROR_CONFIG k\<rparr> else s8)"

text \<open>
  The loop over \<^verbatim>\<open>dbuf\<close>, by recursion on the number of bytes still to write; \<open>dbuf\<close> is
  what is left of the caller's array. The result is \<open>None\<close> when \<^verbatim>\<open>count\<close> is larger than
  the array, where C reads outside it.
\<close>

fun wireWriteBytes_loop ::
  "ds2482_defs \<Rightarrow> u8 list \<Rightarrow> nat \<Rightarrow> u8 \<Rightarrow> machine \<Rightarrow> machine option" where
  "wireWriteBytes_loop k dbuf 0 pwr s = Some s"
| "wireWriteBytes_loop k [] (Suc n) pwr s = None"
| "wireWriteBytes_loop k (d # dbuf) (Suc n) pwr s =
     (let s1 = (if pwr \<noteq> 0 then wireWriteBytes_pullup k s else s);
          s2 = writeByte (DS2482_COMMAND_WRITEBYTE k) s1;
          s3 = writeByte d s2
      in wireWriteBytes_loop k dbuf n pwr s3)"

definition wireWriteBytes ::
  "ds2482_defs \<Rightarrow> u8 list \<Rightarrow> 16 word \<Rightarrow> u8 \<Rightarrow> machine \<Rightarrow> machine option" where
  "wireWriteBytes k dbuf count pwr s =
     (let s1 = snd (waitOnBusy k s);
          s2 = wire_begin s1
      in case wireWriteBytes_loop k dbuf (unat count) pwr s2 of
           None \<Rightarrow> None
         | Some s3 \<Rightarrow> Some (snd (wire_end s3)))"

subsection \<open>The member functions as operations\<close>

text \<open>
  Every member function of \<^verbatim>\<open>OneWire.cpp\<close> that works on an existing object, with its
  arguments. The functions of lines 547 to 590 only call the function of the same
  purpose (\<^verbatim>\<open>search\<close> calls \<^verbatim>\<open>wireSearch\<close>, \<^verbatim>\<open>reset_search\<close> calls \<^verbatim>\<open>wireResetSearch\<close>, and
  so on) and have no operation of their own. \<open>perform\<close> gives the state after the call,
  and \<open>None\<close> when the call would read outside an array it is given.
\<close>

datatype operation =
    GetAddress | GetError
  | Begin | End | WriteByte u8 | ReadByte
  | CheckPresence | DeviceReset
  | SetReadPointer u8 | ReadStatus | ReadData | ReadConfig
  | SetStrongPullup | ClearStrongPullup | WaitOnBusy | WriteConfig u8
  | WireReset
  | WireWriteByte u8 u8 | WireWriteBytes "u8 list" "16 word" u8
  | WireReadByte | WireWriteBit u8 u8 | WireReadBit
  | WireSkip | WireSelect "u8 list"
  | WireResetSearch | WireSearch "u8 list"

fun perform :: "ds2482_defs \<Rightarrow> operation \<Rightarrow> machine \<Rightarrow> machine option" where
  "perform k GetAddress s = Some s"
| "perform k GetError s = Some s"
| "perform k Begin s = Some (wire_begin s)"
| "perform k End s = Some (snd (wire_end s))"
| "perform k (WriteByte data) s = Some (writeByte data s)"
| "perform k ReadByte s = Some (snd (readByte s))"
| "perform k CheckPresence s = Some (snd (checkPresence s))"
| "perform k DeviceReset s = Some (deviceReset k s)"
| "perform k (SetReadPointer readPointer) s = Some (setReadPointer k readPointer s)"
| "perform k ReadStatus s = Some (snd (readStatus k s))"
| "perform k ReadData s = Some (snd (readData k s))"
| "perform k ReadConfig s = Some (snd (readConfig k s))"
| "perform k SetStrongPullup s = Some (setStrongPullup k s)"
| "perform k ClearStrongPullup s = Some (clearStrongPullup k s)"
| "perform k WaitOnBusy s = Some (snd (waitOnBusy k s))"
| "perform k (WriteConfig config) s = Some (writeConfig k config s)"
| "perform k WireReset s = Some (snd (wireReset k s))"
| "perform k (WireWriteByte data pwr) s = Some (wireWriteByte k data pwr s)"
| "perform k (WireWriteBytes dbuf count pwr) s = wireWriteBytes k dbuf count pwr s"
| "perform k WireReadByte s = Some (snd (wireReadByte k s))"
| "perform k (WireWriteBit data pwr) s = Some (wireWriteBit k data pwr s)"
| "perform k WireReadBit s = Some (snd (wireReadBit k s))"
| "perform k WireSkip s = Some (wireSkip k s)"
| "perform k (WireSelect rom) s = (if length rom < 8 then None else Some (wireSelect k rom s))"
| "perform k WireResetSearch s = Some (wireResetSearch s)"
| "perform k (WireSearch address) s = Some (snd (snd (wireSearch k address s)))"

text \<open>A sequence of calls, one after the other.\<close>

fun perform_all :: "ds2482_defs \<Rightarrow> operation list \<Rightarrow> machine \<Rightarrow> machine option" where
  "perform_all k [] s = Some s"
| "perform_all k (op # ops) s =
     (case perform k op s of None \<Rightarrow> None | Some s' \<Rightarrow> perform_all k ops s')"

subsection \<open>The checksum (lines 472 to 538)\<close>

text \<open>
  The file holds two bodies of \<^verbatim>\<open>crc8\<close>; \<^verbatim>\<open>ONEWIRE_USE_CRC8_TABLE\<close> chooses one when it is
  compiled. \<open>addr\<close> is the memory from the pointer on and \<open>len\<close> the number of bytes to
  read; the result is \<open>None\<close> when \<open>len\<close> is larger than the array, where C reads outside
  it. The table body is the one without \<^verbatim>\<open>PROGMEM\<close> (line 508).
\<close>

definition dscrc_table :: "u8 list" where
  "dscrc_table =
    [
     0x00, 0x5E, 0xBC, 0xE2, 0x61, 0x3F, 0xDD, 0x83, 0xC2, 0x9C, 0x7E, 0x20, 0xA3, 0xFD, 0x1F, 0x41,
     0x9D, 0xC3, 0x21, 0x7F, 0xFC, 0xA2, 0x40, 0x1E, 0x5F, 0x01, 0xE3, 0xBD, 0x3E, 0x60, 0x82, 0xDC,
     0x23, 0x7D, 0x9F, 0xC1, 0x42, 0x1C, 0xFE, 0xA0, 0xE1, 0xBF, 0x5D, 0x03, 0x80, 0xDE, 0x3C, 0x62,
     0xBE, 0xE0, 0x02, 0x5C, 0xDF, 0x81, 0x63, 0x3D, 0x7C, 0x22, 0xC0, 0x9E, 0x1D, 0x43, 0xA1, 0xFF,
     0x46, 0x18, 0xFA, 0xA4, 0x27, 0x79, 0x9B, 0xC5, 0x84, 0xDA, 0x38, 0x66, 0xE5, 0xBB, 0x59, 0x07,
     0xDB, 0x85, 0x67, 0x39, 0xBA, 0xE4, 0x06, 0x58, 0x19, 0x47, 0xA5, 0xFB, 0x78, 0x26, 0xC4, 0x9A,
     0x65, 0x3B, 0xD9, 0x87, 0x04, 0x5A, 0xB8, 0xE6, 0xA7, 0xF9, 0x1B, 0x45, 0xC6, 0x98, 0x7A, 0x24,
     0xF8, 0xA6, 0x44, 0x1A, 0x99, 0xC7, 0x25, 0x7B, 0x3A, 0x64, 0x86, 0xD8, 0x5B, 0x05, 0xE7, 0xB9,
     0x8C, 0xD2, 0x30, 0x6E, 0xED, 0xB3, 0x51, 0x0F, 0x4E, 0x10, 0xF2, 0xAC, 0x2F, 0x71, 0x93, 0xCD,
     0x11, 0x4F, 0xAD, 0xF3, 0x70, 0x2E, 0xCC, 0x92, 0xD3, 0x8D, 0x6F, 0x31, 0xB2, 0xEC, 0x0E, 0x50,
     0xAF, 0xF1, 0x13, 0x4D, 0xCE, 0x90, 0x72, 0x2C, 0x6D, 0x33, 0xD1, 0x8F, 0x0C, 0x52, 0xB0, 0xEE,
     0x32, 0x6C, 0x8E, 0xD0, 0x53, 0x0D, 0xEF, 0xB1, 0xF0, 0xAE, 0x4C, 0x12, 0x91, 0xCF, 0x2D, 0x73,
     0xCA, 0x94, 0x76, 0x28, 0xAB, 0xF5, 0x17, 0x49, 0x08, 0x56, 0xB4, 0xEA, 0x69, 0x37, 0xD5, 0x8B,
     0x57, 0x09, 0xEB, 0xB5, 0x36, 0x68, 0x8A, 0xD4, 0x95, 0xCB, 0x29, 0x77, 0xF4, 0xAA, 0x48, 0x16,
     0xE9, 0xB7, 0x55, 0x0B, 0x88, 0xD6, 0x34, 0x6A, 0x2B, 0x75, 0x97, 0xC9, 0x4A, 0x14, 0xF6, 0xA8,
     0x74, 0x2A, 0xC8, 0x96, 0x15, 0x4B, 0xA9, 0xF7, 0xB6, 0xE8, 0x0A, 0x54, 0xD7, 0x89, 0x6B, 0x35]"

fun crc8_table_loop :: "u8 list \<Rightarrow> nat \<Rightarrow> u8 \<Rightarrow> u8 option" where
  "crc8_table_loop addr 0 crc = Some crc"
| "crc8_table_loop [] (Suc len) crc = None"
| "crc8_table_loop (b # addr) (Suc len) crc =
     crc8_table_loop addr len (dscrc_table ! unat (crc XOR b))"

definition crc8_table :: "u8 list \<Rightarrow> u8 \<Rightarrow> u8 option" where
  "crc8_table addr len = crc8_table_loop addr (unat len) 0"

text \<open>The inner loop of the direct body: \<open>i\<close> counts down from 8.\<close>

fun crc8_bits :: "nat \<Rightarrow> u8 \<Rightarrow> u8 \<Rightarrow> u8" where
  "crc8_bits 0 crc inbyte = crc"
| "crc8_bits (Suc i) crc inbyte =
     (let mix = (crc XOR inbyte) AND 0x01;
          crc1 = drop_bit 1 crc;
          crc2 = (if mix \<noteq> 0 then crc1 XOR 0x8C else crc1)
      in crc8_bits i crc2 (drop_bit 1 inbyte))"

fun crc8_direct_loop :: "u8 list \<Rightarrow> nat \<Rightarrow> u8 \<Rightarrow> u8 option" where
  "crc8_direct_loop addr 0 crc = Some crc"
| "crc8_direct_loop [] (Suc len) crc = None"
| "crc8_direct_loop (inbyte # addr) (Suc len) crc =
     crc8_direct_loop addr len (crc8_bits 8 crc inbyte)"

definition crc8_direct :: "u8 list \<Rightarrow> u8 \<Rightarrow> u8 option" where
  "crc8_direct addr len = crc8_direct_loop addr (unat len) 0"

subsection \<open>Reading the log, and a concrete machine\<close>

text \<open>
  What one pass of the polling loop of \<^verbatim>\<open>waitOnBusy\<close> puts on the bus, oldest event first,
  when the status register reads \<open>b\<close>: the read pointer is set to the status register,
  one byte is requested and read, and the driver pauses 20 microseconds when the busy
  bit is set.
\<close>

definition status_poll :: "ds2482_defs \<Rightarrow> u8 \<Rightarrow> u8 \<Rightarrow> wire_event list" where
  "status_poll k a b =
     [BeginTransmission a, WireWrite (DS2482_COMMAND_SRP k), WireWrite (DS2482_POINTER_STATUS k),
      EndTransmission, RequestFrom a 1, WireRead b]
     @ (if b AND DS2482_STATUS_BUSY k = 0 then [] else [DelayMicroseconds 20])"

text \<open>
  The object as the constructor \<^verbatim>\<open>OneWire()\<close> and \<^verbatim>\<open>wireResetSearch()\<close> leave it, on a bus
  whose reads return the bytes \<open>incoming 0\<close>, \<open>incoming 1\<close>, ... and whose transmissions
  are all acknowledged.
\<close>

definition powered_up :: "(nat \<Rightarrow> int) \<Rightarrow> machine" where
  "powered_up incoming =
     \<lparr>mAddress = 0x18, mError = 0, searchLastDiscrepancy = 0, searchLastDeviceFlag = 0,
      searchAddress = [0, 0, 0, 0, 0, 0, 0, 0], wire_incoming = incoming, wire_taken = 0,
      wire_acks = (\<lambda>n. 0), wire_ended = 0, wire_log = []\<rparr>"

text \<open>
  The other transactions of the driver, oldest event first: a run of status polls, the
  read of the configuration register, the write of the configuration register with the
  read that follows it, and the 1-Wire reset command.
\<close>

definition polls :: "ds2482_defs \<Rightarrow> u8 \<Rightarrow> u8 list \<Rightarrow> wire_event list" where
  "polls k a bs = concat (map (status_poll k a) bs)"

definition config_read :: "ds2482_defs \<Rightarrow> u8 \<Rightarrow> u8 \<Rightarrow> wire_event list" where
  "config_read k a c =
     [BeginTransmission a, WireWrite (DS2482_COMMAND_SRP k), WireWrite (DS2482_POINTER_CONFIG k),
      EndTransmission, RequestFrom a 1, WireRead c]"

definition config_write :: "ds2482_defs \<Rightarrow> u8 \<Rightarrow> u8 \<Rightarrow> u8 \<Rightarrow> wire_event list" where
  "config_write k a payload readback =
     [BeginTransmission a, WireWrite (DS2482_COMMAND_WRITECONFIG k), WireWrite payload,
      EndTransmission, RequestFrom a 1, WireRead readback]"

definition reset_command :: "ds2482_defs \<Rightarrow> u8 \<Rightarrow> wire_event list" where
  "reset_command k a =
     [BeginTransmission a, WireWrite (DS2482_COMMAND_RESETWIRE k), EndTransmission]"

text \<open>
  \<open>bus_progress s s'\<close>: the state \<open>s'\<close> differs from \<open>s\<close> at most in \<^verbatim>\<open>mError\<close> and in how far
  the bus has got (its log and the number of reads and transmissions made).
\<close>

definition bus_progress :: "machine \<Rightarrow> machine \<Rightarrow> bool" where
  "bus_progress s s' \<longleftrightarrow>
     mAddress s' = mAddress s \<and> searchLastDiscrepancy s' = searchLastDiscrepancy s \<and>
     searchLastDeviceFlag s' = searchLastDeviceFlag s \<and> searchAddress s' = searchAddress s \<and>
     wire_incoming s' = wire_incoming s \<and> wire_acks s' = wire_acks s"

subsection \<open>The search, as the properties speak of it\<close>

text \<open>
  Bit \<open>j\<close> of the 64-bit ROM code held in an array of 8 bytes: bit \<open>j mod 8\<close> of byte
  \<open>j div 8\<close>.
\<close>

definition rom_bit :: "u8 list \<Rightarrow> nat \<Rightarrow> bool" where
  "rom_bit rom j = bit (rom ! (j div 8)) (j mod 8)"

text \<open>
  The statuses that the loop of \<^verbatim>\<open>wireSearch\<close> captures on line 402, one per pass of the
  loop, from the value \<open>i\<close> of the counter on: the recursion is the one of
  \<open>wireSearch_loop\<close>.
\<close>

function wireSearch_statuses :: "ds2482_defs \<Rightarrow> u8 \<Rightarrow> machine \<Rightarrow> u8 list" where
  "wireSearch_statuses k i s =
     (if i < 64 then
        (case wireSearch_triplet k i s of (status, s1) \<Rightarrow>
           status #
           (if status AND DS2482_STATUS_SBR k \<noteq> 0 \<and> status AND DS2482_STATUS_TSB k \<noteq> 0
            then []
            else wireSearch_statuses k (i + 1)
                   (wireSearch_store (status AND DS2482_STATUS_DIR k) i s1)))
      else [])"
  by pat_completeness auto
termination
proof (relation "measure (\<lambda>(k, i, s). 64 - unat i)")
  show "wf (measure (\<lambda>(k, i, s). 64 - unat i))"
    by simp
next
  fix k :: ds2482_defs and i :: u8 and s :: machine and x :: "u8 \<times> machine"
    and status :: u8 and s1 :: machine
  assume "i < 64"
  then have "unat i < 64"
    by (simp add: word_less_nat_alt)
  then have "unat (i + 1) = unat i + 1"
    by (simp add: unat_word_ariths)
  with \<open>unat i < 64\<close>
  show "((k, i + 1, wireSearch_store (status AND DS2482_STATUS_DIR k) i s1), k, i, s)
        \<in> measure (\<lambda>(k, i, s). 64 - unat i)"
    by simp
qed

text \<open>
  The two tests of a triplet status (lines 408 and 411): both the sampled bit and its
  complement set, which ends the pass; and neither set with direction 0 taken, which
  records the position.
\<close>

definition search_abort :: "ds2482_defs \<Rightarrow> u8 \<Rightarrow> bool" where
  "search_abort k status \<longleftrightarrow>
     status AND DS2482_STATUS_SBR k \<noteq> 0 \<and> status AND DS2482_STATUS_TSB k \<noteq> 0"

definition search_discrepancy :: "ds2482_defs \<Rightarrow> u8 \<Rightarrow> bool" where
  "search_discrepancy k status \<longleftrightarrow>
     status AND DS2482_STATUS_SBR k = 0 \<and> status AND DS2482_STATUS_TSB k = 0 \<and>
     status AND DS2482_STATUS_DIR k = 0"


text \<open>The state with which the loop goes on after the pass for bit \<open>i\<close>.\<close>

definition search_next :: "ds2482_defs \<Rightarrow> u8 \<Rightarrow> machine \<Rightarrow> machine" where
  "search_next k i s =
     wireSearch_store (fst (wireSearch_triplet k i s) AND DS2482_STATUS_DIR k) i
       (snd (wireSearch_triplet k i s))"


text \<open>The state in which \<^verbatim>\<open>wireSearch\<close> enters its loop, after the reset and the search command.\<close>

definition search_entry :: "ds2482_defs \<Rightarrow> machine \<Rightarrow> machine" where
  "search_entry k s =
     wireWriteByte k (WIRE_COMMAND_SEARCH k) 0 (snd (waitOnBusy k (snd (wireReset k s))))"


text \<open>What the loop keeps: everything of the object but the ROM buffer.\<close>

definition search_progress :: "machine \<Rightarrow> machine \<Rightarrow> bool" where
  "search_progress s s' \<longleftrightarrow>
     mAddress s' = mAddress s \<and> searchLastDiscrepancy s' = searchLastDiscrepancy s \<and>
     searchLastDeviceFlag s' = searchLastDeviceFlag s \<and>
     length (searchAddress s') = length (searchAddress s) \<and>
     wire_incoming s' = wire_incoming s \<and> wire_acks s' = wire_acks s"


text \<open>
  A bridge whose first three triplet statuses are 0x80 (direction 1 taken), 0x00 (a
  discrepancy, direction 0 taken) and 0x60 (both bits set: no device answers), in a
  search that a former pass left at discrepancy 7 with bit 2 of the ROM buffer set.
\<close>

definition unplugged :: machine where
  "unplugged =
     (powered_up (\<lambda>n. if n = 5 then 0x02 else if n = 9 then 0x80 else if n = 13 then 0x60
                       else 0x00))
     \<lparr>searchLastDiscrepancy := 7, searchAddress := [0x04, 0, 0, 0, 0, 0, 0, 0]\<rparr>"


text \<open>An object whose enumeration is complete: the last-device flag is set.\<close>

definition enumerated :: machine where
  "enumerated = (powered_up (\<lambda>n. if n = 5 then 0x02 else 0x00))\<lparr>searchLastDeviceFlag := 1\<rparr>"


text \<open>
  The payloads of the triplet commands in a stretch of the log, oldest first: a triplet
  command is a transaction of two bytes whose first byte is \<^verbatim>\<open>DS2482_COMMAND_TRIPLET\<close>.
\<close>

fun triplet_payloads :: "ds2482_defs \<Rightarrow> wire_event list \<Rightarrow> u8 list" where
  "triplet_payloads k (BeginTransmission a # WireWrite c # WireWrite p # EndTransmission # es) =
     (if c = DS2482_COMMAND_TRIPLET k then p # triplet_payloads k es else triplet_payloads k es)"
| "triplet_payloads k (e # es) = triplet_payloads k es"
| "triplet_payloads k [] = []"

text \<open>What a call has put on the bus: the events of \<open>s'\<close> that \<open>s\<close> does not have yet.\<close>

definition new_events :: "machine \<Rightarrow> machine \<Rightarrow> wire_event list" where
  "new_events s s' = drop (length (history s)) (history s')"

text \<open>
  The direction that the claim gives for bit \<open>j\<close>, from the state before the call: the
  bit recorded in the ROM buffer below the last discrepancy, 1 at the last discrepancy,
  0 above it.
\<close>

definition forced_direction :: "machine \<Rightarrow> nat \<Rightarrow> bool" where
  "forced_direction s j =
     (if j < unat (searchLastDiscrepancy s) then rom_bit (searchAddress s) j
      else j = unat (searchLastDiscrepancy s))"

text \<open>
  \<open>emits k s s' ps\<close>: from \<open>s\<close> to \<open>s'\<close> the log has grown by a stretch in which the triplet
  commands have the payloads \<open>ps\<close>, and which is closed: what comes after it is read
  on its own.
\<close>

definition emits :: "ds2482_defs \<Rightarrow> machine \<Rightarrow> machine \<Rightarrow> u8 list \<Rightarrow> bool" where
  "emits k s s' ps \<longleftrightarrow>
     (\<exists>evs. history s' = history s @ evs \<and>
        (\<forall>rest. triplet_payloads k (evs @ rest) = ps @ triplet_payloads k rest))"

text \<open>
  A search that a former pass left at discrepancy 2 with bit 0 of the ROM buffer set, on
  a bridge whose triplet statuses are 0xA0 (a 1 read, direction 1), 0x00 (a discrepancy,
  direction 0), 0x80 (a discrepancy, direction 1) and 0x60 (no device answers).
\<close>

definition searching :: machine where
  "searching =
     (powered_up (\<lambda>n. if n = 5 then 0x02 else if n = 9 then 0xA0 else if n = 13 then 0x80
                       else if n = 15 then 0x60 else 0x00))
     \<lparr>searchLastDiscrepancy := 2, searchAddress := [0x01, 0, 0, 0, 0, 0, 0, 0]\<rparr>"


text \<open>
  The positions of a pass at which the status has the sampled bit and its complement
  clear and direction 0 taken, in increasing order; position \<open>j\<close> is that of the status
  of bit \<open>j\<close>.
\<close>

definition discrepancy_positions :: "ds2482_defs \<Rightarrow> u8 list \<Rightarrow> nat list" where
  "discrepancy_positions k statuses =
     filter (\<lambda>j. search_discrepancy k (statuses ! j)) [0..<length statuses]"

text \<open>
  A search on a bus to which a device has been added between two passes. The pass
  before has left the last discrepancy at 5 and a cleared ROM buffer, as a first pass
  does when the codes on the bus first differ at bit 5. Now the codes differ at bit 0
  (status 0x00: direction 0 is taken) and at bit 5 (status 0x80: direction 1 is taken);
  every other status is 0x40, a 0 read.
\<close>

definition hot_plugged :: machine where
  "hot_plugged =
     (powered_up (\<lambda>n. if n = 5 then 0x02 else if n = 19 then 0x80 else if 11 \<le> n then 0x40
                       else 0x00))
     \<lparr>searchLastDiscrepancy := 5\<rparr>"


section \<open>Properties\<close>

subsection \<open>The polling loop\<close>


lemma incoming_byte_cong:
  "wire_incoming s' = wire_incoming s \<Longrightarrow> incoming_byte s' n = incoming_byte s n"
  by (simp add: incoming_byte_def)

lemma readStatus_fst: "fst (readStatus k s) = incoming_byte s (wire_taken s)"
  by (simp add: incoming_byte_def readStatus_def readByte_def setReadPointer_def wire_end_def writeByte_def
      wire_begin_def emit_def Let_def)

lemma readStatus_fields:
  "wire_taken (snd (readStatus k s)) = Suc (wire_taken s)"
  "wire_incoming (snd (readStatus k s)) = wire_incoming s"
  "wire_acks (snd (readStatus k s)) = wire_acks s"
  "wire_ended (snd (readStatus k s)) = Suc (wire_ended s)"
  "mAddress (snd (readStatus k s)) = mAddress s"
  "mError (snd (readStatus k s)) = mError s"
  "searchLastDiscrepancy (snd (readStatus k s)) = searchLastDiscrepancy s"
  "searchLastDeviceFlag (snd (readStatus k s)) = searchLastDeviceFlag s"
  "searchAddress (snd (readStatus k s)) = searchAddress s"
  "incoming_byte (snd (readStatus k s)) = incoming_byte s"
  by (simp_all add: fun_eq_iff incoming_byte_def readStatus_def readByte_def setReadPointer_def wire_end_def writeByte_def
      wire_begin_def emit_def Let_def)

lemma readStatus_log:
  "wire_log (snd (readStatus k s)) =
     [WireRead (incoming_byte s (wire_taken s)), RequestFrom (mAddress s) 1, EndTransmission,
      WireWrite (DS2482_POINTER_STATUS k), WireWrite (DS2482_COMMAND_SRP k),
      BeginTransmission (mAddress s)] @ wire_log s"
  by (simp add: incoming_byte_def readStatus_def readByte_def setReadPointer_def wire_end_def writeByte_def
      wire_begin_def emit_def Let_def)

lemma delay_fields:
  "wire_taken (delayMicroseconds n s) = wire_taken s"
  "wire_incoming (delayMicroseconds n s) = wire_incoming s"
  "wire_acks (delayMicroseconds n s) = wire_acks s"
  "wire_ended (delayMicroseconds n s) = wire_ended s"
  "mAddress (delayMicroseconds n s) = mAddress s"
  "mError (delayMicroseconds n s) = mError s"
  "searchLastDiscrepancy (delayMicroseconds n s) = searchLastDiscrepancy s"
  "searchLastDeviceFlag (delayMicroseconds n s) = searchLastDeviceFlag s"
  "searchAddress (delayMicroseconds n s) = searchAddress s"
  "wire_log (delayMicroseconds n s) = DelayMicroseconds n # wire_log s"
  "incoming_byte (delayMicroseconds n s) = incoming_byte s"
  by (simp_all add: fun_eq_iff incoming_byte_def delayMicroseconds_def emit_def)

lemma loop_frame:
  "wire_incoming (snd (waitOnBusy_loop k i st s)) = wire_incoming s \<and>
   wire_acks (snd (waitOnBusy_loop k i st s)) = wire_acks s \<and>
   mAddress (snd (waitOnBusy_loop k i st s)) = mAddress s \<and>
   mError (snd (waitOnBusy_loop k i st s)) = mError s \<and>
   searchLastDiscrepancy (snd (waitOnBusy_loop k i st s)) = searchLastDiscrepancy s \<and>
   searchLastDeviceFlag (snd (waitOnBusy_loop k i st s)) = searchLastDeviceFlag s \<and>
   searchAddress (snd (waitOnBusy_loop k i st s)) = searchAddress s"
proof (induction i arbitrary: st s)
  case 0
  show ?case by simp
next
  case (Suc i)
  obtain b s1 where rs: "readStatus k s = (b, s1)" by (cases "readStatus k s")
  have s1: "s1 = snd (readStatus k s)" using rs by simp
  show ?case
    using Suc.IH [where st = b and s = "delayMicroseconds 20 s1"]
    by (simp add: rs) (simp add: s1 readStatus_fields delay_fields)
qed

lemma loop_count:
  "wire_taken s \<le> wire_taken (snd (waitOnBusy_loop k i st s)) \<and>
   wire_taken (snd (waitOnBusy_loop k i st s)) \<le> wire_taken s + i \<and>
   (0 < i \<longrightarrow> wire_taken s < wire_taken (snd (waitOnBusy_loop k i st s)))"
proof (induction i arbitrary: st s)
  case 0
  show ?case by simp
next
  case (Suc i)
  obtain b s1 where rs: "readStatus k s = (b, s1)" by (cases "readStatus k s")
  have s1: "s1 = snd (readStatus k s)" using rs by simp
  show ?case
    using Suc.IH [where st = b and s = "delayMicroseconds 20 s1"]
    by (simp add: rs) (simp add: s1 readStatus_fields delay_fields)
qed

lemma loop_status:
  "0 < i \<Longrightarrow> fst (waitOnBusy_loop k i st s) =
     incoming_byte s (wire_taken (snd (waitOnBusy_loop k i st s)) - 1)"
proof (induction i arbitrary: st s)
  case 0
  then show ?case by simp
next
  case (Suc i)
  obtain b s1 where rs: "readStatus k s = (b, s1)" by (cases "readStatus k s")
  have s1: "s1 = snd (readStatus k s)" and b: "b = incoming_byte s (wire_taken s)"
    using rs readStatus_fst [of k s] by simp_all
  show ?case
  proof (cases "i = 0")
    case True
    then show ?thesis by (simp add: rs) (simp add: s1 b readStatus_fields delay_fields)
  next
    case False
    then show ?thesis
      using Suc.IH [where st = b and s = "delayMicroseconds 20 s1"]
      by (simp add: rs) (simp add: s1 b readStatus_fields delay_fields)
  qed
qed

lemma loop_earlier_busy:
  "wire_taken s \<le> j \<Longrightarrow> Suc j < wire_taken (snd (waitOnBusy_loop k i st s)) \<Longrightarrow>
     incoming_byte s j AND DS2482_STATUS_BUSY k \<noteq> 0"
proof (induction i arbitrary: st s)
  case 0
  then show ?case by simp
next
  case (Suc i)
  obtain b s1 where rs: "readStatus k s = (b, s1)" by (cases "readStatus k s")
  have s1: "s1 = snd (readStatus k s)" and b: "b = incoming_byte s (wire_taken s)"
    using rs readStatus_fst [of k s] by simp_all
  show ?case
  proof (cases "b AND DS2482_STATUS_BUSY k = 0")
    case True
    with Suc.prems show ?thesis by (simp add: rs) (simp add: s1 readStatus_fields)
  next
    case False
    show ?thesis
    proof (cases "j = wire_taken s")
      case True
      with False b show ?thesis by simp
    next
      case neq: False
      with Suc.prems(1) have "wire_taken (delayMicroseconds 20 s1) \<le> j"
        by (simp add: s1 readStatus_fields delay_fields)
      moreover from Suc.prems(2) False
      have "Suc j < wire_taken (snd (waitOnBusy_loop k i b (delayMicroseconds 20 s1)))"
        by (simp add: rs)
      ultimately have "incoming_byte (delayMicroseconds 20 s1) j AND DS2482_STATUS_BUSY k \<noteq> 0"
        by (rule Suc.IH)
      then show ?thesis by (simp add: s1 readStatus_fields delay_fields)
    qed
  qed
qed

lemma loop_early_exit:
  "wire_taken (snd (waitOnBusy_loop k i st s)) < wire_taken s + i \<Longrightarrow>
     fst (waitOnBusy_loop k i st s) AND DS2482_STATUS_BUSY k = 0"
proof (induction i arbitrary: st s)
  case 0
  then show ?case by simp
next
  case (Suc i)
  obtain b s1 where rs: "readStatus k s = (b, s1)" by (cases "readStatus k s")
  have s1: "s1 = snd (readStatus k s)" and b: "b = incoming_byte s (wire_taken s)"
    using rs readStatus_fst [of k s] by simp_all
  show ?case
  proof (cases "b AND DS2482_STATUS_BUSY k = 0")
    case True
    then show ?thesis by (simp add: rs)
  next
    case False
    with Suc.prems
    have "wire_taken (snd (waitOnBusy_loop k i b (delayMicroseconds 20 s1)))
            < wire_taken (delayMicroseconds 20 s1) + i"
      by (simp add: rs) (simp add: s1 readStatus_fields delay_fields)
    then have "fst (waitOnBusy_loop k i b (delayMicroseconds 20 s1)) AND DS2482_STATUS_BUSY k = 0"
      by (rule Suc.IH)
    with False show ?thesis by (simp add: rs)
  qed
qed

lemma loop_log:
  "wire_log (snd (waitOnBusy_loop k i st s)) =
     rev (concat (map (\<lambda>j. status_poll k (mAddress s) (incoming_byte s j))
            [wire_taken s ..< wire_taken (snd (waitOnBusy_loop k i st s))])) @ wire_log s"
proof (induction i arbitrary: st s)
  case 0
  show ?case by simp
next
  case (Suc i)
  obtain b s1 where rs: "readStatus k s = (b, s1)" by (cases "readStatus k s")
  have s1: "s1 = snd (readStatus k s)" and b: "b = incoming_byte s (wire_taken s)"
    using rs readStatus_fst [of k s] by simp_all
  show ?case
  proof (cases "b AND DS2482_STATUS_BUSY k = 0")
    case True
    then show ?thesis
      by (simp add: rs) (simp add: s1 b readStatus_fields readStatus_log status_poll_def)
  next
    case False
    let ?s2 = "delayMicroseconds 20 s1"
    have le: "Suc (wire_taken s) \<le> wire_taken (snd (waitOnBusy_loop k i b ?s2))"
      using loop_count [where s = ?s2 and k = k and i = i and st = b] by (simp add: s1 readStatus_fields delay_fields)
    have "[wire_taken s ..< wire_taken (snd (waitOnBusy_loop k i b ?s2))] =
          wire_taken s # [Suc (wire_taken s) ..< wire_taken (snd (waitOnBusy_loop k i b ?s2))]"
      using le by (simp add: upt_conv_Cons)
    then show ?thesis
      using False Suc.IH [where st = b and s = ?s2]
      by (simp add: rs) (simp add: s1 b readStatus_fields readStatus_log delay_fields status_poll_def)
  qed
qed


lemma waitOnBusy_fst: "fst (waitOnBusy k s) = fst (waitOnBusy_loop k 1000 0 s)"
  by (simp add: waitOnBusy_def case_prod_beta)

lemma waitOnBusy_frame:
  "wire_incoming (snd (waitOnBusy k s)) = wire_incoming s"
  "wire_acks (snd (waitOnBusy k s)) = wire_acks s"
  "mAddress (snd (waitOnBusy k s)) = mAddress s"
  "searchLastDiscrepancy (snd (waitOnBusy k s)) = searchLastDiscrepancy s"
  "searchLastDeviceFlag (snd (waitOnBusy k s)) = searchLastDeviceFlag s"
  "searchAddress (snd (waitOnBusy k s)) = searchAddress s"
  using loop_frame [of k 1000 0 s]
  by (simp_all add: waitOnBusy_def case_prod_beta)

lemma waitOnBusy_taken:
  "wire_taken (snd (waitOnBusy k s)) = wire_taken (snd (waitOnBusy_loop k 1000 0 s))"
  by (simp add: waitOnBusy_def case_prod_beta)

lemma waitOnBusy_log:
  "wire_log (snd (waitOnBusy k s)) = wire_log (snd (waitOnBusy_loop k 1000 0 s))"
  by (simp add: waitOnBusy_def case_prod_beta)

lemma waitOnBusy_mError:
  "mError (snd (waitOnBusy k s)) =
     (if fst (waitOnBusy k s) AND DS2482_STATUS_BUSY k \<noteq> 0 then DS2482_ERROR_TIMEOUT k
      else mError s)"
  using loop_frame [of k 1000 0 s]
  by (simp add: waitOnBusy_def case_prod_beta)

text \<open>
  C6. \<^verbatim>\<open>waitOnBusy\<close> reads the status register \<open>n\<close> times, with \<open>1 \<le> n \<le> 1000\<close>; each
  read is a set-read-pointer transaction followed by a one-byte read, and a read with
  the busy bit set is followed by a pause of 20 microseconds. Every read before the last
  had the busy bit set, so the loop stops at the first read with the bit clear; when it
  stops before the 1000th read the last status has the bit clear. The result is the
  last byte read. \<^verbatim>\<open>mError\<close> becomes \<^verbatim>\<open>DS2482_ERROR_TIMEOUT\<close> when the returned status has
  the busy bit set and is left as it was otherwise; and the returned status has the busy
  bit set exactly when all 1000 reads of the budget had it set.
\<close>

theorem waitOnBusy_polls_until_idle:
  fixes k :: ds2482_defs and s :: machine
  defines "r \<equiv> wire_taken s"
  defines "n \<equiv> wire_taken (snd (waitOnBusy k s)) - wire_taken s"
  defines "status \<equiv> fst (waitOnBusy k s)"
  shows "1 \<le> n \<and> n \<le> 1000 \<and> wire_taken (snd (waitOnBusy k s)) = r + n \<and>
    history (snd (waitOnBusy k s)) =
      history s @ concat (map (\<lambda>j. status_poll k (mAddress s) (incoming_byte s (r + j))) [0..<n]) \<and>
    (\<forall>j. j + 1 < n \<longrightarrow> incoming_byte s (r + j) AND DS2482_STATUS_BUSY k \<noteq> 0) \<and>
    (n < 1000 \<longrightarrow> status AND DS2482_STATUS_BUSY k = 0) \<and>
    status = incoming_byte s (r + n - 1) \<and>
    mError (snd (waitOnBusy k s)) =
      (if status AND DS2482_STATUS_BUSY k \<noteq> 0 then DS2482_ERROR_TIMEOUT k else mError s) \<and>
    ((status AND DS2482_STATUS_BUSY k \<noteq> 0) =
      (n = 1000 \<and> (\<forall>j<1000. incoming_byte s (r + j) AND DS2482_STATUS_BUSY k \<noteq> 0)))"
proof -
  let ?L = "waitOnBusy_loop k 1000 0 s"
  have taken: "wire_taken (snd (waitOnBusy k s)) = wire_taken (snd ?L)"
    by (rule waitOnBusy_taken)
  have count: "r < wire_taken (snd ?L)" "wire_taken (snd ?L) \<le> r + 1000"
    using loop_count [of s k 1000 0] by (simp_all add: r_def)
  have n: "wire_taken (snd ?L) = r + n" "1 \<le> n" "n \<le> 1000"
    using count by (simp_all add: n_def taken r_def)
  have st: "status = incoming_byte s (r + n - 1)"
    using loop_status [of 1000 k 0 s] by (simp add: status_def waitOnBusy_fst n)
  have earlier: "incoming_byte s (r + j) AND DS2482_STATUS_BUSY k \<noteq> 0" if "j + 1 < n" for j
    using loop_earlier_busy [of s "r + j" k 1000 0] that by (simp add: r_def n [unfolded r_def])
  have early: "status AND DS2482_STATUS_BUSY k = 0" if "n < 1000"
    using loop_early_exit [of k 1000 0 s] that
    by (simp add: status_def waitOnBusy_fst n [unfolded r_def])
  have "map (\<lambda>j. status_poll k (mAddress s) (incoming_byte s j)) [r ..< r + n] =
        map (\<lambda>j. status_poll k (mAddress s) (incoming_byte s (r + j))) [0..<n]"
    by (induction n) simp_all
  then have hist: "history (snd (waitOnBusy k s)) =
      history s @ concat (map (\<lambda>j. status_poll k (mAddress s) (incoming_byte s (r + j))) [0..<n])"
    using loop_log [of k 1000 0 s]
    by (simp add: history_def waitOnBusy_log n [unfolded r_def] r_def)
  have err: "mError (snd (waitOnBusy k s)) =
      (if status AND DS2482_STATUS_BUSY k \<noteq> 0 then DS2482_ERROR_TIMEOUT k else mError s)"
    unfolding status_def by (rule waitOnBusy_mError)
  have iff: "(status AND DS2482_STATUS_BUSY k \<noteq> 0) =
      (n = 1000 \<and> (\<forall>j<1000. incoming_byte s (r + j) AND DS2482_STATUS_BUSY k \<noteq> 0))"
  proof
    assume busy: "status AND DS2482_STATUS_BUSY k \<noteq> 0"
    then have n1000: "n = 1000"
      using early n by force
    have "incoming_byte s (r + j) AND DS2482_STATUS_BUSY k \<noteq> 0" if "j < 1000" for j
    proof (cases "j + 1 < n")
      case True
      then show ?thesis by (rule earlier)
    next
      case False
      with that n1000 have "j = n - 1" by simp
      with busy st n show ?thesis by simp
    qed
    with n1000 show "n = 1000 \<and> (\<forall>j<1000. incoming_byte s (r + j) AND DS2482_STATUS_BUSY k \<noteq> 0)"
      by simp
  next
    assume a: "n = 1000 \<and> (\<forall>j<1000. incoming_byte s (r + j) AND DS2482_STATUS_BUSY k \<noteq> 0)"
    then have "incoming_byte s (r + 999) AND DS2482_STATUS_BUSY k \<noteq> 0" by simp
    moreover from a st have "status = incoming_byte s (r + 999)" by (simp add: add.commute)
    ultimately show "status AND DS2482_STATUS_BUSY k \<noteq> 0" by simp
  qed
  from n st earlier early hist err iff show ?thesis
    by (simp add: taken)
qed

text \<open>The definitions a concrete run unfolds.\<close>

lemmas run_defs = incoming_byte_def waitOnBusy_def readStatus_def readConfig_def readData_def readByte_def
  setReadPointer_def wire_end_def writeByte_def wire_begin_def emit_def delayMicroseconds_def
  Let_def

text \<open>
  A run of C6: the bridge is busy at the first three reads and idle at the fourth.
\<close>

theorem waitOnBusy_polls_until_idle_witness:
  "wire_taken (snd (waitOnBusy datasheet (powered_up (\<lambda>n. if n < 3 then 0x01 else 0x02)))) = 4 \<and>
   fst (waitOnBusy datasheet (powered_up (\<lambda>n. if n < 3 then 0x01 else 0x02))) = 0x02 \<and>
   mError (snd (waitOnBusy datasheet (powered_up (\<lambda>n. if n < 3 then 0x01 else 0x02)))) = 0 \<and>
   history (snd (waitOnBusy datasheet (powered_up (\<lambda>n. if n < 3 then 0x01 else 0x02)))) =
     status_poll datasheet 0x18 0x01 @ status_poll datasheet 0x18 0x01 @
     status_poll datasheet 0x18 0x01 @ status_poll datasheet 0x18 0x02"
  using waitOnBusy_polls_until_idle [of datasheet "powered_up (\<lambda>n. if n < 3 then 0x01 else 0x02)"]
  by (simp add: run_defs powered_up_def datasheet_def numeral_eq_Suc history_def status_poll_def)

subsection \<open>What no bus operation changes\<close>

lemma bus_progress_refl: "bus_progress s s"
  by (simp add: bus_progress_def)

lemma bus_progress_mError: "bus_progress s t \<Longrightarrow> bus_progress s (t\<lparr>mError := e\<rparr>)"
  by (simp add: bus_progress_def)

lemma bus_progress_emit: "bus_progress s t \<Longrightarrow> bus_progress s (emit e t)"
  by (simp add: bus_progress_def emit_def)

lemma bus_progress_wire_begin: "bus_progress s t \<Longrightarrow> bus_progress s (wire_begin t)"
  by (simp add: bus_progress_def wire_begin_def emit_def)

lemma bus_progress_wire_end: "bus_progress s t \<Longrightarrow> bus_progress s (snd (wire_end t))"
  by (simp add: bus_progress_def wire_end_def emit_def)

lemma bus_progress_writeByte: "bus_progress s t \<Longrightarrow> bus_progress s (writeByte d t)"
  by (simp add: bus_progress_def writeByte_def emit_def)

lemma bus_progress_readByte: "bus_progress s t \<Longrightarrow> bus_progress s (snd (readByte t))"
  by (simp add: bus_progress_def readByte_def emit_def Let_def)

lemma bus_progress_delay: "bus_progress s t \<Longrightarrow> bus_progress s (delayMicroseconds n t)"
  by (simp add: bus_progress_def delayMicroseconds_def emit_def)

lemma bus_progress_setReadPointer:
  "bus_progress s t \<Longrightarrow> bus_progress s (setReadPointer k p t)"
  unfolding setReadPointer_def Let_def
  by (intro bus_progress_wire_end bus_progress_writeByte bus_progress_wire_begin)

lemma bus_progress_readStatus: "bus_progress s t \<Longrightarrow> bus_progress s (snd (readStatus k t))"
  unfolding readStatus_def by (intro bus_progress_readByte bus_progress_setReadPointer)

lemma bus_progress_readData: "bus_progress s t \<Longrightarrow> bus_progress s (snd (readData k t))"
  unfolding readData_def by (intro bus_progress_readByte bus_progress_setReadPointer)

lemma bus_progress_readConfig: "bus_progress s t \<Longrightarrow> bus_progress s (snd (readConfig k t))"
  unfolding readConfig_def by (intro bus_progress_readByte bus_progress_setReadPointer)

lemma bus_progress_waitOnBusy: "bus_progress s t \<Longrightarrow> bus_progress s (snd (waitOnBusy k t))"
  using waitOnBusy_frame [of k t] by (simp add: bus_progress_def)

lemmas bus_progress_basic = bus_progress_mError bus_progress_emit bus_progress_wire_begin
  bus_progress_wire_end bus_progress_writeByte bus_progress_readByte bus_progress_delay
  bus_progress_setReadPointer bus_progress_readStatus bus_progress_readData
  bus_progress_readConfig bus_progress_waitOnBusy

lemma bus_progress_writeConfig: "bus_progress s t \<Longrightarrow> bus_progress s (writeConfig k c t)"
  unfolding writeConfig_def Let_def case_prod_beta
  by (simp add: bus_progress_basic)

lemma bus_progress_setStrongPullup: "bus_progress s t \<Longrightarrow> bus_progress s (setStrongPullup k t)"
  unfolding setStrongPullup_def case_prod_beta
  by (intro bus_progress_writeConfig bus_progress_readConfig)

lemma bus_progress_clearStrongPullup:
  "bus_progress s t \<Longrightarrow> bus_progress s (clearStrongPullup k t)"
  unfolding clearStrongPullup_def case_prod_beta
  by (intro bus_progress_writeConfig bus_progress_readConfig)

lemma bus_progress_wireReset: "bus_progress s t \<Longrightarrow> bus_progress s (snd (wireReset k t))"
  unfolding wireReset_def Let_def case_prod_beta
  by (simp add: bus_progress_basic bus_progress_clearStrongPullup)

lemma bus_progress_wireWriteByte:
  "bus_progress s t \<Longrightarrow> bus_progress s (wireWriteByte k d p t)"
  unfolding wireWriteByte_def Let_def
  by (simp add: bus_progress_basic bus_progress_setStrongPullup)

lemma bus_progress_wireReadByte: "bus_progress s t \<Longrightarrow> bus_progress s (snd (wireReadByte k t))"
  unfolding wireReadByte_def Let_def
  by (simp add: bus_progress_basic)

lemma bus_progress_wireWriteBit: "bus_progress s t \<Longrightarrow> bus_progress s (wireWriteBit k d p t)"
  unfolding wireWriteBit_def Let_def
  by (simp add: bus_progress_basic bus_progress_setStrongPullup)

lemma bus_progress_wireReadBit: "bus_progress s t \<Longrightarrow> bus_progress s (snd (wireReadBit k t))"
  unfolding wireReadBit_def case_prod_beta
  by (simp add: bus_progress_basic bus_progress_wireWriteBit)

lemma bus_progress_wireSkip: "bus_progress s t \<Longrightarrow> bus_progress s (wireSkip k t)"
  unfolding wireSkip_def by (rule bus_progress_wireWriteByte)

lemma bus_progress_fold_wireWriteByte:
  "bus_progress s t \<Longrightarrow> bus_progress s (fold (\<lambda>i s'. wireWriteByte k (rom ! i) 0 s') is t)"
  by (induction "is" arbitrary: t) (simp_all add: bus_progress_wireWriteByte)

lemma bus_progress_wireSelect: "bus_progress s t \<Longrightarrow> bus_progress s (wireSelect k rom t)"
  unfolding wireSelect_def
  by (intro bus_progress_fold_wireWriteByte bus_progress_wireWriteByte)

lemma bus_progress_checkPresence: "bus_progress s t \<Longrightarrow> bus_progress s (snd (checkPresence t))"
  unfolding checkPresence_def case_prod_beta
  by (simp add: bus_progress_basic)

lemma bus_progress_deviceReset: "bus_progress s t \<Longrightarrow> bus_progress s (deviceReset k t)"
  unfolding deviceReset_def
  by (intro bus_progress_wire_end bus_progress_wireWriteByte bus_progress_wire_begin)

lemma bus_progress_pullup: "bus_progress s t \<Longrightarrow> bus_progress s (wireWriteBytes_pullup k t)"
  unfolding wireWriteBytes_pullup_def Let_def
  by (simp add: bus_progress_def writeByte_def emit_def)

lemma bus_progress_wireWriteBytes_loop:
  "bus_progress s t \<Longrightarrow> wireWriteBytes_loop k dbuf n p t = Some t' \<Longrightarrow> bus_progress s t'"
proof (induction k dbuf n p t rule: wireWriteBytes_loop.induct)
  case (1 k dbuf pwr s)
  then show ?case by simp
next
  case (2 k n pwr s)
  then show ?case by simp
next
  case (3 k d dbuf n pwr t)
  show ?case
  proof (rule "3.IH" [OF refl refl refl])
    show "bus_progress s (writeByte d (writeByte (DS2482_COMMAND_WRITEBYTE k)
            (if pwr \<noteq> 0 then wireWriteBytes_pullup k t else t)))"
      using "3.prems"(1) by (simp add: bus_progress_basic bus_progress_pullup)
    show "wireWriteBytes_loop k dbuf n pwr (writeByte d (writeByte (DS2482_COMMAND_WRITEBYTE k)
            (if pwr \<noteq> 0 then wireWriteBytes_pullup k t else t))) = Some t'"
      using "3.prems"(2) by (simp add: Let_def)
  qed
qed

lemma bus_progress_wireWriteBytes:
  "bus_progress s t \<Longrightarrow> wireWriteBytes k dbuf count p t = Some t' \<Longrightarrow> bus_progress s t'"
  unfolding wireWriteBytes_def Let_def
  by (auto split: option.splits
      intro!: bus_progress_wire_end
      elim!: bus_progress_wireWriteBytes_loop [rotated]
      intro: bus_progress_wire_begin bus_progress_waitOnBusy)

subsection \<open>The configuration register\<close>

lemma nibble_mask: "(0x0F :: u8) = mask 4"
  by (simp add: mask_eq_exp_minus_1)

lemma config_payload_word: "config_payload config = config OR push_bit 4 (NOT config)"
  by (simp add: config_payload_def of_int_or_eq of_int_push_bit of_int_not_eq)

lemma config_payload_low: "config_payload config AND 0x0F = config AND 0x0F"
  unfolding config_payload_word nibble_mask
  by (rule bit_word_eqI) (auto simp add: bit_simps)

lemma config_payload_high:
  "drop_bit 4 (config_payload config) = drop_bit 4 config OR (NOT config AND 0x0F)"
  unfolding config_payload_word nibble_mask
  by (rule bit_word_eqI) (auto simp add: bit_simps)

lemma low_nibble_id:
  assumes "config \<le> 0x0F"
  shows "config AND 0x0F = (config :: u8)"
proof -
  have "uint config < 2 ^ 4"
    using assms by (simp add: word_le_def)
  then have "config AND mask 4 = config"
    by (simp only: mask_eq_iff)
  then show ?thesis
    by (simp only: nibble_mask)
qed

lemma high_nibble_zero:
  assumes "config \<le> 0x0F"
  shows "drop_bit 4 (config :: u8) = 0"
proof -
  have "drop_bit 4 (config AND mask 4) = 0"
    by (rule bit_word_eqI) (auto simp add: bit_simps)
  with low_nibble_id [OF assms] show ?thesis
    by (simp add: nibble_mask)
qed

lemma config_payload_0x0D: "config_payload 0x0D = 0x2D"
  by (simp add: config_payload_word)
lemma config_payload_0x00: "config_payload 0 = 0xF0"
proof -
  have "push_bit 4 (NOT (0 :: u8)) = 0xF0"
    by (simp add: push_bit_eq_mult)
  then show ?thesis
    by (simp only: config_payload_word or.left_neutral)
qed
lemma config_payload_0x09: "config_payload 9 = 0x69"
  by (simp add: config_payload_word)

lemma bus_progress_incoming_byte: "bus_progress s t \<Longrightarrow> incoming_byte t = incoming_byte s"
  by (simp add: bus_progress_def incoming_byte_def fun_eq_iff)

lemma bus_progress_mAddress: "bus_progress s t \<Longrightarrow> mAddress t = mAddress s"
  by (simp add: bus_progress_def)

lemma waitOnBusy_last_read:
  "fst (waitOnBusy k s) = incoming_byte s (wire_taken (snd (waitOnBusy k s)) - 1)"
  using loop_status [of 1000 k 0 s] by (simp add: waitOnBusy_fst waitOnBusy_taken)

lemma waitOnBusy_history:
  "\<exists>bs. bs \<noteq> [] \<and> length bs \<le> 1000 \<and>
     history (snd (waitOnBusy k s)) = history s @ polls k (mAddress s) bs"
proof -
  let ?r = "wire_taken s" and ?r' = "wire_taken (snd (waitOnBusy_loop k 1000 0 s))"
  let ?bs = "map (incoming_byte s) [?r..<?r']"
  have "?r < ?r'" "?r' \<le> ?r + 1000"
    using loop_count [of s k 1000 0] by simp_all
  then have "?bs \<noteq> []" "length ?bs \<le> 1000"
    by simp_all
  moreover have "history (snd (waitOnBusy k s)) = history s @ polls k (mAddress s) ?bs"
    using loop_log [of k 1000 0 s]
    by (simp add: history_def waitOnBusy_log polls_def comp_def)
  ultimately show ?thesis by blast
qed

lemma readConfig_effect:
  "fst (readConfig k s) = incoming_byte s (wire_taken s)"
  "history (snd (readConfig k s)) =
     history s @ config_read k (mAddress s) (incoming_byte s (wire_taken s))"
  "wire_taken (snd (readConfig k s)) = Suc (wire_taken s)"
  "mError (snd (readConfig k s)) = mError s"
  by (simp_all add: incoming_byte_def readConfig_def readByte_def setReadPointer_def wire_end_def
      writeByte_def wire_begin_def emit_def Let_def history_def config_read_def)

lemma writeConfig_effect:
  "history (writeConfig k config s) =
     history (snd (waitOnBusy k s)) @
     config_write k (mAddress s) (config_payload config)
       (incoming_byte s (wire_taken (snd (waitOnBusy k s))))"
  "mError (writeConfig k config s) =
     (if incoming_byte s (wire_taken (snd (waitOnBusy k s))) \<noteq> config
      then DS2482_ERROR_CONFIG k else mError (snd (waitOnBusy k s)))"
  "wire_taken (writeConfig k config s) = Suc (wire_taken (snd (waitOnBusy k s)))"
  using waitOnBusy_frame [of k s]
  by (simp_all add: incoming_byte_def writeConfig_def readByte_def wire_end_def
      writeByte_def wire_begin_def emit_def Let_def history_def config_write_def)

lemma waitOnBusy_loop_numeral:
  "waitOnBusy_loop k (numeral n) status s =
     (case readStatus k s of (status', s1) \<Rightarrow>
        if status' AND DS2482_STATUS_BUSY k = 0 then (status', s1)
        else waitOnBusy_loop k (pred_numeral n) status' (delayMicroseconds 20 s1))"
  by (simp add: numeral_eq_Suc)

text \<open>
  C5. For every value of the configuration field (four bits, a value up to 0x0F), the
  payload that \<^verbatim>\<open>writeConfig\<close> sends has the value as its lower nibble and the bitwise
  complement of the value as its upper nibble; the payload is computed as the value OR-ed
  with its complement shifted left by four, modulo \<open>2\<^sup>8\<close>. After the wait for the busy bit
  the driver sends the write-configuration command and the payload in one transaction
  and reads the configuration register back (one byte). \<^verbatim>\<open>mError\<close> becomes
  \<^verbatim>\<open>DS2482_ERROR_CONFIG\<close> when the byte read back differs from the value, and is not
  written when the byte is the value.
\<close>

theorem writeConfig_payload_and_verify:
  fixes k :: ds2482_defs and config :: u8 and s :: machine
  defines "s1 \<equiv> snd (waitOnBusy k s)"
  defines "readback \<equiv> incoming_byte s (wire_taken s1)"
  shows "config_payload config = config OR push_bit 4 (NOT config) \<and>
    config_payload config AND 0x0F = config AND 0x0F \<and>
    drop_bit 4 (config_payload config) = drop_bit 4 config OR (NOT config AND 0x0F) \<and>
    (config \<le> 0x0F \<longrightarrow>
       config_payload config AND 0x0F = config \<and>
       drop_bit 4 (config_payload config) = NOT config AND 0x0F) \<and>
    history (writeConfig k config s) =
      history s1 @ config_write k (mAddress s) (config_payload config) readback \<and>
    mError (writeConfig k config s) =
      (if readback \<noteq> config then DS2482_ERROR_CONFIG k else mError s1)"
  unfolding s1_def readback_def
  by (simp add: config_payload_word [symmetric] config_payload_low config_payload_high
      low_nibble_id high_nibble_zero writeConfig_effect)

text \<open>
  A run of C5: the value 0x01 is written and the bridge gives 0x00 back.
\<close>

theorem writeConfig_payload_and_verify_witness:
  "(0x01 :: u8) \<le> 0x0F \<and> config_payload 0x01 = 0xE1 \<and>
   history (writeConfig datasheet 0x01 (powered_up (\<lambda>n. 0))) =
     status_poll datasheet 0x18 0x00 @ config_write datasheet 0x18 0xE1 0x00 \<and>
   mError (writeConfig datasheet 0x01 (powered_up (\<lambda>n. 0))) = DS2482_ERROR_CONFIG datasheet"
  using writeConfig_payload_and_verify [where config = "0x01" and k = datasheet
      and s = "powered_up (\<lambda>n. 0)"]
  by (simp add: run_defs writeConfig_def powered_up_def datasheet_def waitOnBusy_loop_numeral history_def
      status_poll_def config_write_def config_payload_word)

lemmas run_more = run_defs waitOnBusy_loop_numeral writeConfig_def setStrongPullup_def
  clearStrongPullup_def logical_not_def wireReset_def powered_up_def datasheet_def history_def
  status_poll_def config_read_def config_write_def reset_command_def polls_def

lemma strongPullup_argument:
  "setStrongPullup k s =
     writeConfig k (incoming_byte s (wire_taken s) OR DS2482_CONFIG_SPU k) (snd (readConfig k s))"
  "clearStrongPullup k s =
     writeConfig k (incoming_byte s (wire_taken s) AND logical_not (DS2482_CONFIG_SPU k))
       (snd (readConfig k s))"
  using readConfig_effect(1) [of k s]
  by (simp_all add: setStrongPullup_def clearStrongPullup_def case_prod_beta)

lemma clearStrongPullup_writes_zero:
  "DS2482_CONFIG_SPU k \<noteq> 0 \<Longrightarrow> clearStrongPullup k s = writeConfig k 0 (snd (readConfig k s))"
  by (simp add: strongPullup_argument logical_not_def)

text \<open>
  C1. \<^verbatim>\<open>clearStrongPullup\<close> does not keep the other bits: line 149 negates the mask with
  \<^verbatim>\<open>!\<close>, so the value it hands to \<^verbatim>\<open>writeConfig\<close> is 0 whatever was read. When the
  configuration register reads 0x0D, clearing the strong-pullup bit alone gives 0x09,
  with payload 0x69; the payload the driver sends is 0xF0, the payload of 0x00.
\<close>

theorem clearStrongPullup_clears_every_bit:
  "fst (readConfig datasheet (powered_up (\<lambda>n. if n = 0 then 0x0D else 0x00))) = 0x0D \<and>
   0x0D AND NOT (DS2482_CONFIG_SPU datasheet) = 0x09 \<and>
   config_payload 0x09 = 0x69 \<and>
   history (clearStrongPullup datasheet (powered_up (\<lambda>n. if n = 0 then 0x0D else 0x00))) =
     config_read datasheet 0x18 0x0D @ status_poll datasheet 0x18 0x00 @
     config_write datasheet 0x18 0xF0 0x00"
  by (simp add: run_more config_payload_0x00 config_payload_0x09)

subsection \<open>1-Wire reset\<close>

lemma let_value_cong: "a = b \<Longrightarrow> Let a t = Let b t"
  by simp

lemma wire_command_history:
  "history (snd (wire_end (writeByte c (wire_begin s)))) =
     history s @ [BeginTransmission (mAddress s), WireWrite c, EndTransmission]"
  by (simp add: wire_end_def writeByte_def wire_begin_def emit_def history_def)

lemma history_mError: "history (s\<lparr>mError := e\<rparr>) = history s"
  by (simp add: history_def)

lemma wireReset_result:
  "wireReset k s =
     (let s3 = snd (waitOnBusy k (clearStrongPullup k (snd (waitOnBusy k s))));
          s6 = snd (wire_end (writeByte (DS2482_COMMAND_RESETWIRE k) (wire_begin s3)));
          status = fst (waitOnBusy k s6);
          s7 = snd (waitOnBusy k s6)
      in (if status AND DS2482_STATUS_PPD k \<noteq> 0 then 1 else 0,
          if status AND DS2482_STATUS_SD k \<noteq> 0 then s7\<lparr>mError := DS2482_ERROR_SHORT k\<rparr>
          else s7))"
  by (simp add: wireReset_def Let_def case_prod_beta)

lemma waitOnBusy_trace:
  "\<exists>bs. bs \<noteq> [] \<and> length bs \<le> 1000 \<and>
     history (snd (waitOnBusy k s)) = history s @ polls k (mAddress s) bs \<and>
     fst (waitOnBusy k s) = last bs \<and>
     (\<forall>b \<in> set (butlast bs). b AND DS2482_STATUS_BUSY k \<noteq> 0)"
proof -
  let ?r = "wire_taken s" and ?r' = "wire_taken (snd (waitOnBusy_loop k 1000 0 s))"
  let ?bs = "map (incoming_byte s) [?r..<?r']"
  have count: "?r < ?r'" "?r' \<le> ?r + 1000"
    using loop_count [of s k 1000 0] by simp_all
  then have ne: "?bs \<noteq> []" "length ?bs \<le> 1000"
    by simp_all
  have hist: "history (snd (waitOnBusy k s)) = history s @ polls k (mAddress s) ?bs"
    using loop_log [of k 1000 0 s]
    by (simp add: history_def waitOnBusy_log polls_def comp_def)
  have "last ?bs = incoming_byte s (?r' - 1)"
    using count by (simp add: last_map last_upt)
  then have status: "fst (waitOnBusy k s) = last ?bs"
    by (simp add: waitOnBusy_last_read waitOnBusy_taken)
  have "[?r..<?r'] = [?r..<?r' - 1] @ [?r' - 1]"
    using count by (metis Suc_diff_1 le_add2 less_imp_Suc_add plus_1_eq_Suc upt_Suc_append diff_Suc_1 add_Suc_right le_add1 zero_less_Suc less_or_eq_imp_le)
  then have "butlast ?bs = map (incoming_byte s) [?r..<?r' - 1]"
    by (simp add: map_butlast [symmetric])
  moreover have "incoming_byte s j AND DS2482_STATUS_BUSY k \<noteq> 0" if "?r \<le> j" "j < ?r' - 1" for j
    using that by (intro loop_earlier_busy [of s j k 1000 0]) simp_all
  ultimately have busy: "\<forall>b \<in> set (butlast ?bs). b AND DS2482_STATUS_BUSY k \<noteq> 0"
    by auto
  from ne hist status busy show ?thesis by blast
qed

lemma wireReset_trace:
  fixes k :: ds2482_defs and s :: machine
  defines "before_reset \<equiv> snd (waitOnBusy k (clearStrongPullup k (snd (waitOnBusy k s))))"
  shows "\<exists>bs1 c bs2 readback bs3 bs4.
     history (snd (wireReset k s)) =
       history s @ polls k (mAddress s) bs1 @ config_read k (mAddress s) c @
       polls k (mAddress s) bs2 @
       config_write k (mAddress s)
         (config_payload (c AND logical_not (DS2482_CONFIG_SPU k))) readback @
       polls k (mAddress s) bs3 @ reset_command k (mAddress s) @ polls k (mAddress s) bs4 \<and>
     bs1 \<noteq> [] \<and> bs2 \<noteq> [] \<and> bs3 \<noteq> [] \<and> bs4 \<noteq> [] \<and> length bs4 \<le> 1000 \<and>
     (\<forall>b \<in> set (butlast bs4). b AND DS2482_STATUS_BUSY k \<noteq> 0) \<and>
     last bs4 = incoming_byte s (wire_taken (snd (wireReset k s)) - 1) \<and>
     fst (wireReset k s) = (if last bs4 AND DS2482_STATUS_PPD k \<noteq> 0 then 1 else 0) \<and>
     mError (snd (wireReset k s)) =
       (if last bs4 AND DS2482_STATUS_SD k \<noteq> 0 then DS2482_ERROR_SHORT k
        else if last bs4 AND DS2482_STATUS_BUSY k \<noteq> 0 then DS2482_ERROR_TIMEOUT k
        else mError before_reset)"
proof -
  define s1 where "s1 = snd (waitOnBusy k s)"
  define c where "c = incoming_byte s1 (wire_taken s1)"
  define sc where "sc = snd (readConfig k s1)"
  define sw where "sw = snd (waitOnBusy k sc)"
  define s2 where "s2 = clearStrongPullup k s1"
  define s3 where "s3 = snd (waitOnBusy k s2)"
  define s6 where "s6 = snd (wire_end (writeByte (DS2482_COMMAND_RESETWIRE k) (wire_begin s3)))"
  define cfg where "cfg = c AND logical_not (DS2482_CONFIG_SPU k)"
  define a where "a = mAddress s"
  have before: "before_reset = s3"
    by (simp add: before_reset_def s3_def s2_def s1_def)
  have p1: "bus_progress s s1"
    unfolding s1_def by (intro bus_progress_waitOnBusy bus_progress_refl)
  have pc: "bus_progress s sc"
    unfolding sc_def by (intro bus_progress_readConfig p1)
  have p2: "bus_progress s s2"
    unfolding s2_def by (intro bus_progress_clearStrongPullup p1)
  have p3: "bus_progress s s3"
    unfolding s3_def by (intro bus_progress_waitOnBusy p2)
  have p6: "bus_progress s s6"
    unfolding s6_def
    by (intro bus_progress_wire_end bus_progress_writeByte bus_progress_wire_begin p3)
  note addr = p1 [THEN bus_progress_mAddress] pc [THEN bus_progress_mAddress]
    p2 [THEN bus_progress_mAddress] p3 [THEN bus_progress_mAddress]
    p6 [THEN bus_progress_mAddress]
  obtain bs1 where bs1: "bs1 \<noteq> []" "history s1 = history s @ polls k a bs1"
    using waitOnBusy_history [of k s] unfolding s1_def a_def by blast
  have hc: "history sc = history s1 @ config_read k a c"
    unfolding sc_def c_def a_def by (simp add: readConfig_effect addr)
  obtain bs2 where bs2: "bs2 \<noteq> []" "history sw = history sc @ polls k a bs2"
    using waitOnBusy_history [of k sc] unfolding sw_def a_def by (auto simp add: addr)
  have s2_eq: "s2 = writeConfig k cfg sc"
    unfolding s2_def cfg_def c_def sc_def by (rule strongPullup_argument)
  obtain readback where h2: "history s2 = history sw @ config_write k a (config_payload cfg) readback"
    unfolding s2_eq sw_def a_def by (simp add: writeConfig_effect addr)
  obtain bs3 where bs3: "bs3 \<noteq> []" "history s3 = history s2 @ polls k a bs3"
    using waitOnBusy_history [of k s2] unfolding s3_def a_def by (auto simp add: addr)
  have h6: "history s6 = history s3 @ reset_command k a"
    unfolding s6_def a_def by (simp add: wire_command_history reset_command_def addr)
  have m6: "mError s6 = mError s3"
    unfolding s6_def by (simp add: wire_end_def writeByte_def wire_begin_def emit_def)
  obtain bs4 where bs4: "bs4 \<noteq> []" "length bs4 \<le> 1000"
    "history (snd (waitOnBusy k s6)) = history s6 @ polls k a bs4"
    "fst (waitOnBusy k s6) = last bs4"
    "\<forall>b \<in> set (butlast bs4). b AND DS2482_STATUS_BUSY k \<noteq> 0"
    using waitOnBusy_trace [of k s6] unfolding a_def by (auto simp add: addr)
  have "history (snd (wireReset k s)) = history (snd (waitOnBusy k s6))"
    by (simp add: wireReset_result Let_def history_mError s6_def s3_def s2_def s1_def)
  then have whole: "history (snd (wireReset k s)) =
      history s @ polls k a bs1 @ config_read k a c @ polls k a bs2 @
      config_write k a (config_payload cfg) readback @ polls k a bs3 @ reset_command k a @
      polls k a bs4"
    by (simp add: bs4 h6 bs3 h2 bs2 hc bs1)
  have wr: "wireReset k s =
      (if fst (waitOnBusy k s6) AND DS2482_STATUS_PPD k \<noteq> 0 then 1 else 0,
       if fst (waitOnBusy k s6) AND DS2482_STATUS_SD k \<noteq> 0
       then (snd (waitOnBusy k s6))\<lparr>mError := DS2482_ERROR_SHORT k\<rparr>
       else snd (waitOnBusy k s6))"
    by (simp add: wireReset_result Let_def s6_def s3_def s2_def s1_def)
  have r: "fst (wireReset k s) = (if last bs4 AND DS2482_STATUS_PPD k \<noteq> 0 then 1 else 0)"
    unfolding wr bs4(4) by simp
  have e: "mError (snd (wireReset k s)) =
      (if last bs4 AND DS2482_STATUS_SD k \<noteq> 0 then DS2482_ERROR_SHORT k
       else if last bs4 AND DS2482_STATUS_BUSY k \<noteq> 0 then DS2482_ERROR_TIMEOUT k
       else mError before_reset)"
    unfolding wr using bs4(4) by (simp add: waitOnBusy_mError m6 before)
  have "wire_taken (snd (wireReset k s)) = wire_taken (snd (waitOnBusy k s6))"
    unfolding wr by simp
  then have l: "last bs4 = incoming_byte s (wire_taken (snd (wireReset k s)) - 1)"
    using waitOnBusy_last_read [of k s6] p6 bs4(4) by (simp add: bus_progress_incoming_byte)
  from whole bs1(1) bs2(1) bs3(1) bs4(1,2,5) l r e show ?thesis
    unfolding cfg_def a_def by blast
qed

text \<open>
  C7. What \<^verbatim>\<open>wireReset\<close> puts on the bus ends with the 1-Wire reset command followed by
  status polls only, at least one and at most 1000, of which all but the last read the
  busy bit set. The status that decides is the last of them, the last byte read in the
  call. \<^verbatim>\<open>wireReset\<close> returns 1 when its presence bit is set and 0 otherwise. \<^verbatim>\<open>mError\<close>
  becomes \<^verbatim>\<open>DS2482_ERROR_SHORT\<close> when its short-detect bit is set; otherwise it is as the
  last wait left it (\<^verbatim>\<open>DS2482_ERROR_TIMEOUT\<close> when the busy bit is still set, else what it
  was before the reset command). With short-detect set and presence clear the call
  returns 0 with \<^verbatim>\<open>DS2482_ERROR_SHORT\<close>.
\<close>

theorem wireReset_presence_and_short:
  fixes k :: ds2482_defs and s :: machine
  defines "before_reset \<equiv> snd (waitOnBusy k (clearStrongPullup k (snd (waitOnBusy k s))))"
  shows "\<exists>before statuses.
     history (snd (wireReset k s)) =
       history s @ before @ reset_command k (mAddress s) @ polls k (mAddress s) statuses \<and>
     statuses \<noteq> [] \<and> length statuses \<le> 1000 \<and>
     (\<forall>b \<in> set (butlast statuses). b AND DS2482_STATUS_BUSY k \<noteq> 0) \<and>
     last statuses = incoming_byte s (wire_taken (snd (wireReset k s)) - 1) \<and>
     fst (wireReset k s) = (if last statuses AND DS2482_STATUS_PPD k \<noteq> 0 then 1 else 0) \<and>
     mError (snd (wireReset k s)) =
       (if last statuses AND DS2482_STATUS_SD k \<noteq> 0 then DS2482_ERROR_SHORT k
        else if last statuses AND DS2482_STATUS_BUSY k \<noteq> 0 then DS2482_ERROR_TIMEOUT k
        else mError before_reset) \<and>
     (last statuses AND DS2482_STATUS_SD k \<noteq> 0 \<and> last statuses AND DS2482_STATUS_PPD k = 0 \<longrightarrow>
        fst (wireReset k s) = 0 \<and> mError (snd (wireReset k s)) = DS2482_ERROR_SHORT k)"
proof -
  obtain bs1 c bs2 readback bs3 bs4 where t:
    "history (snd (wireReset k s)) =
       history s @ polls k (mAddress s) bs1 @ config_read k (mAddress s) c @
       polls k (mAddress s) bs2 @
       config_write k (mAddress s)
         (config_payload (c AND logical_not (DS2482_CONFIG_SPU k))) readback @
       polls k (mAddress s) bs3 @ reset_command k (mAddress s) @ polls k (mAddress s) bs4"
    "bs4 \<noteq> []" "length bs4 \<le> 1000"
    "\<forall>b \<in> set (butlast bs4). b AND DS2482_STATUS_BUSY k \<noteq> 0"
    "last bs4 = incoming_byte s (wire_taken (snd (wireReset k s)) - 1)"
    "fst (wireReset k s) = (if last bs4 AND DS2482_STATUS_PPD k \<noteq> 0 then 1 else 0)"
    "mError (snd (wireReset k s)) =
       (if last bs4 AND DS2482_STATUS_SD k \<noteq> 0 then DS2482_ERROR_SHORT k
        else if last bs4 AND DS2482_STATUS_BUSY k \<noteq> 0 then DS2482_ERROR_TIMEOUT k
        else mError before_reset)"
    using wireReset_trace [of k s] unfolding before_reset_def by blast
  let ?before = "polls k (mAddress s) bs1 @ config_read k (mAddress s) c @
       polls k (mAddress s) bs2 @
       config_write k (mAddress s)
         (config_payload (c AND logical_not (DS2482_CONFIG_SPU k))) readback @
       polls k (mAddress s) bs3"
  have h: "history (snd (wireReset k s)) =
      history s @ ?before @ reset_command k (mAddress s) @ polls k (mAddress s) bs4"
    using t(1) by simp
  have both: "fst (wireReset k s) = 0 \<and> mError (snd (wireReset k s)) = DS2482_ERROR_SHORT k"
    if "last bs4 AND DS2482_STATUS_SD k \<noteq> 0" "last bs4 AND DS2482_STATUS_PPD k = 0"
    using that t(6,7) by simp
  from h t(2-7) both show ?thesis
    by blast
qed

text \<open>
  A run of C7: the status after the reset command is 0x04, short-detect without presence.
\<close>

theorem wireReset_presence_and_short_witness:
  "history (snd (wireReset datasheet (powered_up (\<lambda>n. if n = 5 then 0x04 else 0x00)))) =
     status_poll datasheet 0x18 0x00 @ config_read datasheet 0x18 0x00 @
     status_poll datasheet 0x18 0x00 @ config_write datasheet 0x18 0xF0 0x00 @
     status_poll datasheet 0x18 0x00 @ reset_command datasheet 0x18 @
     status_poll datasheet 0x18 0x04 \<and>
   0x04 AND DS2482_STATUS_SD datasheet \<noteq> 0 \<and> 0x04 AND DS2482_STATUS_PPD datasheet = 0 \<and>
   fst (wireReset datasheet (powered_up (\<lambda>n. if n = 5 then 0x04 else 0x00))) = 0 \<and>
   mError (snd (wireReset datasheet (powered_up (\<lambda>n. if n = 5 then 0x04 else 0x00)))) =
     DS2482_ERROR_SHORT datasheet"
  using wireReset_presence_and_short [of datasheet "powered_up (\<lambda>n. if n = 5 then 0x04 else 0x00)"]
  by (simp add: run_more config_payload_0x00 cong: let_value_cong)

text \<open>
  C8. What \<^verbatim>\<open>wireReset\<close> puts on the bus is, in this order: status polls, the read of the
  configuration register, status polls, the write of the configuration register, status
  polls, the 1-Wire reset command, status polls; every run of polls has at least one
  poll. The configuration nibble of the payload written has the strong-pullup bit
  clear, and when \<^verbatim>\<open>DS2482_CONFIG_SPU\<close> is not 0 the payload is 0xF0. This holds in every
  state, so also right after \<^verbatim>\<open>setStrongPullup\<close>.
\<close>

theorem wireReset_clears_pullup_before_reset:
  "\<exists>bs1 c bs2 readback bs3 bs4.
     history (snd (wireReset k s)) =
       history s @ polls k (mAddress s) bs1 @ config_read k (mAddress s) c @
       polls k (mAddress s) bs2 @
       config_write k (mAddress s)
         (config_payload (c AND logical_not (DS2482_CONFIG_SPU k))) readback @
       polls k (mAddress s) bs3 @ reset_command k (mAddress s) @ polls k (mAddress s) bs4 \<and>
     bs1 \<noteq> [] \<and> bs2 \<noteq> [] \<and> bs3 \<noteq> [] \<and> bs4 \<noteq> [] \<and>
     (config_payload (c AND logical_not (DS2482_CONFIG_SPU k)) AND 0x0F) AND DS2482_CONFIG_SPU k = 0
     \<and>
     (DS2482_CONFIG_SPU k \<noteq> 0 \<longrightarrow>
        config_payload (c AND logical_not (DS2482_CONFIG_SPU k)) = 0xF0)"
proof -
  define s1 where "s1 = snd (waitOnBusy k s)"
  define c where "c = incoming_byte s1 (wire_taken s1)"
  define sc where "sc = snd (readConfig k s1)"
  define sw where "sw = snd (waitOnBusy k sc)"
  define s2 where "s2 = clearStrongPullup k s1"
  define s3 where "s3 = snd (waitOnBusy k s2)"
  define s6 where "s6 = snd (wire_end (writeByte (DS2482_COMMAND_RESETWIRE k) (wire_begin s3)))"
  define cfg where "cfg = c AND logical_not (DS2482_CONFIG_SPU k)"
  define a where "a = mAddress s"
  have p1: "bus_progress s s1"
    unfolding s1_def by (intro bus_progress_waitOnBusy bus_progress_refl)
  have pc: "bus_progress s sc"
    unfolding sc_def by (intro bus_progress_readConfig p1)
  have p2: "bus_progress s s2"
    unfolding s2_def by (intro bus_progress_clearStrongPullup p1)
  have p3: "bus_progress s s3"
    unfolding s3_def by (intro bus_progress_waitOnBusy p2)
  have p6: "bus_progress s s6"
    unfolding s6_def
    by (intro bus_progress_wire_end bus_progress_writeByte bus_progress_wire_begin p3)
  note addr = p1 [THEN bus_progress_mAddress] pc [THEN bus_progress_mAddress]
    p2 [THEN bus_progress_mAddress] p3 [THEN bus_progress_mAddress]
    p6 [THEN bus_progress_mAddress]
  obtain bs1 where bs1: "bs1 \<noteq> []" "history s1 = history s @ polls k a bs1"
    using waitOnBusy_history [of k s] unfolding s1_def a_def by blast
  have hc: "history sc = history s1 @ config_read k a c"
    unfolding sc_def c_def a_def by (simp add: readConfig_effect addr)
  obtain bs2 where bs2: "bs2 \<noteq> []" "history sw = history sc @ polls k a bs2"
    using waitOnBusy_history [of k sc] unfolding sw_def a_def by (auto simp add: addr)
  have s2_eq: "s2 = writeConfig k cfg sc"
    unfolding s2_def cfg_def c_def sc_def by (rule strongPullup_argument)
  obtain readback where h2: "history s2 = history sw @ config_write k a (config_payload cfg) readback"
    unfolding s2_eq sw_def a_def by (simp add: writeConfig_effect addr)
  obtain bs3 where bs3: "bs3 \<noteq> []" "history s3 = history s2 @ polls k a bs3"
    using waitOnBusy_history [of k s2] unfolding s3_def a_def by (auto simp add: addr)
  have h6: "history s6 = history s3 @ reset_command k a"
    unfolding s6_def a_def by (simp add: wire_command_history reset_command_def addr)
  obtain bs4 where bs4: "bs4 \<noteq> []"
    "history (snd (waitOnBusy k s6)) = history s6 @ polls k a bs4"
    using waitOnBusy_history [of k s6] unfolding a_def by (auto simp add: addr)
  have "history (snd (wireReset k s)) = history (snd (waitOnBusy k s6))"
    by (simp add: wireReset_result Let_def history_mError s6_def s3_def s2_def s1_def)
  then have whole: "history (snd (wireReset k s)) =
      history s @ polls k a bs1 @ config_read k a c @ polls k a bs2 @
      config_write k a (config_payload cfg) readback @ polls k a bs3 @ reset_command k a @
      polls k a bs4"
    by (simp add: bs4 h6 bs3 h2 bs2 hc bs1)
  have "cfg AND DS2482_CONFIG_SPU k = 0"
    by (simp add: cfg_def logical_not_def)
  then have "(cfg AND 0x0F) AND DS2482_CONFIG_SPU k = 0"
    by (metis and.assoc and.commute and_zero_eq)
  then have low: "(config_payload cfg AND 0x0F) AND DS2482_CONFIG_SPU k = 0"
    by (simp only: config_payload_low)
  have zero: "config_payload cfg = 0xF0" if "DS2482_CONFIG_SPU k \<noteq> 0"
    using that by (simp add: cfg_def logical_not_def config_payload_0x00)
  from whole bs1(1) bs2(1) bs3(1) bs4(1) low zero show ?thesis
    unfolding cfg_def a_def by blast
qed

text \<open>
  A run of C8: \<^verbatim>\<open>setStrongPullup\<close> on a register that reads 0x09, then \<^verbatim>\<open>wireReset\<close>.
\<close>

theorem wireReset_clears_pullup_before_reset_witness:
  "DS2482_CONFIG_SPU datasheet \<noteq> 0 \<and>
   history (snd (wireReset datasheet (setStrongPullup datasheet
      (powered_up (\<lambda>n. if n = 0 then 0x09 else if n = 2 \<or> n = 4 then 0x0D
                       else if n = 8 then 0x02 else 0x00))))) =
     config_read datasheet 0x18 0x09 @ status_poll datasheet 0x18 0x00 @
     config_write datasheet 0x18 0x2D 0x0D @
     status_poll datasheet 0x18 0x00 @ config_read datasheet 0x18 0x0D @
     status_poll datasheet 0x18 0x00 @ config_write datasheet 0x18 0xF0 0x00 @
     status_poll datasheet 0x18 0x00 @ reset_command datasheet 0x18 @
     status_poll datasheet 0x18 0x02"
  using wireReset_clears_pullup_before_reset [of datasheet "setStrongPullup datasheet
      (powered_up (\<lambda>n. if n = 0 then 0x09 else if n = 2 \<or> n = 4 then 0x0D
                       else if n = 8 then 0x02 else 0x00))"]
  by (simp add: run_more config_payload_0x00 config_payload_0x0D cong: let_value_cong)

subsection \<open>The ROM search\<close>

declare wireSearch_loop.simps [simp del] wireSearch_statuses.simps [simp del]

lemma u8_succ: "i < 64 \<Longrightarrow> unat (i + 1 :: u8) = Suc (unat i)"
  by (simp add: word_less_nat_alt unat_word_ariths)

lemma u8_succ_le: "i < 64 \<Longrightarrow> (i + 1 :: u8) \<le> 64"
  by (simp add: word_less_nat_alt word_le_nat_alt unat_word_ariths)

lemma bus_progress_triplet: "bus_progress s t \<Longrightarrow> bus_progress s (snd (wireSearch_triplet k i t))"
  unfolding wireSearch_triplet_def Let_def
  by (simp add: bus_progress_basic)

lemma search_progress_refl: "search_progress s s"
  by (simp add: search_progress_def)

lemma search_progress_step:
  "search_progress s t \<Longrightarrow>
     search_progress s (wireSearch_store d i (snd (wireSearch_triplet k i t)))"
  using bus_progress_triplet [of t t k i]
  by (simp add: search_progress_def bus_progress_def wireSearch_store_def)

lemma search_progress_triplet:
  "search_progress s t \<Longrightarrow> search_progress s (snd (wireSearch_triplet k i t))"
  using bus_progress_triplet [of t t k i]
  by (simp add: search_progress_def bus_progress_def)

lemma wireSearch_loop_step:
  "i < 64 \<Longrightarrow> wireSearch_loop k i last_zero s =
     (if search_abort k (fst (wireSearch_triplet k i s))
      then (None, snd (wireSearch_triplet k i s))
      else wireSearch_loop k (i + 1)
             (if search_discrepancy k (fst (wireSearch_triplet k i s)) then i else last_zero)
             (search_next k i s))"
  by (subst wireSearch_loop.simps)
    (simp add: case_prod_beta search_abort_def search_discrepancy_def search_next_def)

lemma wireSearch_loop_done: "\<not> i < 64 \<Longrightarrow> wireSearch_loop k i last_zero s = (Some last_zero, s)"
  by (subst wireSearch_loop.simps) simp

lemma wireSearch_statuses_step:
  "i < 64 \<Longrightarrow> wireSearch_statuses k i s =
     fst (wireSearch_triplet k i s) #
     (if search_abort k (fst (wireSearch_triplet k i s)) then []
      else wireSearch_statuses k (i + 1) (search_next k i s))"
  by (subst wireSearch_statuses.simps)
    (simp add: case_prod_beta search_abort_def search_next_def)

lemma wireSearch_statuses_done: "\<not> i < 64 \<Longrightarrow> wireSearch_statuses k i s = []"
  by (subst wireSearch_statuses.simps) simp

lemma search_induct [case_names pass]:
  assumes "\<And>i s. (i < 64 \<Longrightarrow> \<not> search_abort k (fst (wireSearch_triplet k i s)) \<Longrightarrow>
              P (i + 1) (search_next k i s)) \<Longrightarrow> P i s"
  shows "P i s"
proof -
  have bounded: "\<forall>i s. 64 - unat i \<le> n \<longrightarrow> P i s" for n
  proof (induction n)
    case 0
    show ?case
    proof (intro allI impI)
      fix j :: u8 and t :: machine
      assume "64 - unat j \<le> 0"
      then have "\<not> j < 64"
        by (simp add: word_less_nat_alt)
      then show "P j t"
        by - (rule assms, simp)
    qed
  next
    case (Suc n)
    show ?case
    proof (intro allI impI)
      fix j :: u8 and t :: machine
      assume bound: "64 - unat j \<le> Suc n"
      show "P j t"
      proof (rule assms)
        assume "j < 64" and "\<not> search_abort k (fst (wireSearch_triplet k j t))"
        then have "64 - unat (j + 1) \<le> n"
          using bound by (simp add: u8_succ word_less_nat_alt)
        with Suc.IH show "P (j + 1) (search_next k j t)"
          by simp
      qed
    qed
  qed
  then show ?thesis
    by (simp del: diff_is_0_eq') (metis order_refl)
qed

lemma search_progress_next: "search_progress s t \<Longrightarrow> search_progress s (search_next k i t)"
  unfolding search_next_def by (rule search_progress_step)

lemma wireSearch_loop_progress:
  "search_progress s0 s \<Longrightarrow> search_progress s0 (snd (wireSearch_loop k i last_zero s))"
proof (induction i s arbitrary: last_zero rule: search_induct [where k = k])
  case (pass i s)
  show ?case
  proof (cases "i < 64")
    case False
    then show ?thesis
      using pass.prems by (simp add: wireSearch_loop_done)
  next
    case True
    then show ?thesis
      using pass.IH pass.prems
      by (simp add: wireSearch_loop_step search_progress_triplet search_progress_next)
  qed
qed

lemma searchBit_test: "x AND searchBit i \<noteq> 0 \<longleftrightarrow> bit x (unat i mod 8)"
  by (simp add: searchBit_def bit_iff_and_push_bit_not_eq_0)

lemma search_direction_forced:
  "search_direction s i \<noteq> 0 \<longleftrightarrow>
     (if i < searchLastDiscrepancy s then rom_bit (searchAddress s) (unat i)
      else i = searchLastDiscrepancy s)"
  by (simp add: search_direction_def searchBit_test rom_bit_def searchByte_def)

lemma wireSearch_store_rom:
  "searchAddress (wireSearch_store d i s) =
     (searchAddress s)[unat i div 8 :=
        (if d \<noteq> 0 then set_bit (unat i mod 8) (searchAddress s ! (unat i div 8))
         else unset_bit (unat i mod 8) (searchAddress s ! (unat i div 8)))]"
  by (simp add: wireSearch_store_def searchByte_def searchBit_def set_bit_eq_or
      unset_bit_eq_and_not)

lemma wireSearch_store_other_bit:
  assumes "j \<noteq> unat i"
  shows "rom_bit (searchAddress (wireSearch_store d i s)) j = rom_bit (searchAddress s) j"
proof (cases "j div 8 = unat i div 8")
  case False
  then show ?thesis
    by (simp add: wireSearch_store_rom rom_bit_def)
next
  case True
  with assms have m: "unat i mod 8 \<noteq> j mod 8"
    by (metis div_mult_mod_eq)
  show ?thesis
  proof (cases "unat i div 8 < length (searchAddress s)")
    case False
    then show ?thesis
      by (simp add: wireSearch_store_rom rom_bit_def list_update_beyond)
  next
    case inside: True
    with True m show ?thesis
      by (simp add: wireSearch_store_rom rom_bit_def bit_simps)
  qed
qed

lemma wireSearch_store_this_bit:
  assumes "unat i div 8 < length (searchAddress s)"
  shows "rom_bit (searchAddress (wireSearch_store d i s)) (unat i) = (d \<noteq> 0)"
proof -
  have "unat i mod 8 < 8" by simp
  then have "possible_bit TYPE(u8) (unat i mod 8)"
    by (simp add: possible_bit_word)
  with assms show ?thesis
    by (simp add: wireSearch_store_rom rom_bit_def bit_simps)
qed

lemma wireSearch_store_fields:
  "mAddress (wireSearch_store d i s) = mAddress s"
  "mError (wireSearch_store d i s) = mError s"
  "searchLastDiscrepancy (wireSearch_store d i s) = searchLastDiscrepancy s"
  "searchLastDeviceFlag (wireSearch_store d i s) = searchLastDeviceFlag s"
  "wire_incoming (wireSearch_store d i s) = wire_incoming s"
  "wire_taken (wireSearch_store d i s) = wire_taken s"
  "wire_acks (wireSearch_store d i s) = wire_acks s"
  "wire_ended (wireSearch_store d i s) = wire_ended s"
  "wire_log (wireSearch_store d i s) = wire_log s"
  "history (wireSearch_store d i s) = history s"
  "length (searchAddress (wireSearch_store d i s)) = length (searchAddress s)"
  by (simp_all add: wireSearch_store_def history_def)

lemma search_next_other_bit:
  "j \<noteq> unat i \<Longrightarrow> rom_bit (searchAddress (search_next k i s)) j = rom_bit (searchAddress s) j"
  using bus_progress_triplet [of s s k i]
  by (simp add: search_next_def wireSearch_store_other_bit bus_progress_def)

text \<open>Outcome of the loop and the statuses it has seen.\<close>

lemma wireSearch_statuses_length: "length (wireSearch_statuses k i s) \<le> 64 - unat i"
proof (induction i s rule: search_induct [where k = k])
  case (pass i s)
  show ?case
  proof (cases "i < 64")
    case False
    then show ?thesis by (simp add: wireSearch_statuses_done)
  next
    case True
    then have "unat i < 64" by (simp add: word_less_nat_alt)
    then show ?thesis
      using True pass.IH by (auto simp add: wireSearch_statuses_step u8_succ)
  qed
qed

lemma wireSearch_statuses_nonempty: "i < 64 \<Longrightarrow> wireSearch_statuses k i s \<noteq> []"
  by (simp add: wireSearch_statuses_step)

lemma wireSearch_statuses_butlast:
  "st \<in> set (butlast (wireSearch_statuses k i s)) \<Longrightarrow> \<not> search_abort k st"
proof (induction i s rule: search_induct [where k = k])
  case (pass i s)
  show ?case
  proof (cases "i < 64")
    case False
    with pass.prems show ?thesis by (simp add: wireSearch_statuses_done)
  next
    case True
    show ?thesis
    proof (cases "search_abort k (fst (wireSearch_triplet k i s))")
      case abort: True
      with True pass.prems show ?thesis by (simp add: wireSearch_statuses_step)
    next
      case cont: False
      with True pass.prems pass.IH show ?thesis
        by (auto simp add: wireSearch_statuses_step split: if_splits)
    qed
  qed
qed

lemma wireSearch_loop_aborted:
  "fst (wireSearch_loop k i last_zero s) = None \<longleftrightarrow>
     wireSearch_statuses k i s \<noteq> [] \<and> search_abort k (last (wireSearch_statuses k i s))"
proof (induction i s arbitrary: last_zero rule: search_induct [where k = k])
  case (pass i s)
  show ?case
  proof (cases "i < 64")
    case False
    then show ?thesis
      by (simp add: wireSearch_loop_done wireSearch_statuses_done)
  next
    case True
    show ?thesis
    proof (cases "search_abort k (fst (wireSearch_triplet k i s))")
      case abort: True
      with True show ?thesis
        by (simp add: wireSearch_loop_step wireSearch_statuses_step)
    next
      case cont: False
      with True pass.IH show ?thesis
        by (simp add: wireSearch_loop_step wireSearch_statuses_step)
    qed
  qed
qed

lemma wireSearch_loop_completed:
  "fst (wireSearch_loop k i last_zero s) \<noteq> None \<Longrightarrow>
     length (wireSearch_statuses k i s) = 64 - unat i"
proof (induction i s arbitrary: last_zero rule: search_induct [where k = k])
  case (pass i s)
  show ?case
  proof (cases "i < 64")
    case False
    then show ?thesis
      by (simp add: wireSearch_statuses_done word_less_nat_alt)
  next
    case True
    then have "unat i < 64" by (simp add: word_less_nat_alt)
    with True pass.prems pass.IH show ?thesis
      by (auto simp add: wireSearch_loop_step wireSearch_statuses_step u8_succ
          split: if_splits)
  qed
qed

text \<open>
  The loop overwrites only the bits of the passes it has completed: with \<open>n\<close> statuses
  seen, of which the last one ended the pass when the loop was left by \<^verbatim>\<open>return 0\<close>.
\<close>

lemma wireSearch_loop_other_bits:
  assumes "j < unat i \<or>
     unat i + (length (wireSearch_statuses k i s) -
        (if fst (wireSearch_loop k i last_zero s) = None then 1 else 0)) \<le> j"
  shows "rom_bit (searchAddress (snd (wireSearch_loop k i last_zero s))) j =
     rom_bit (searchAddress s) j"
  using assms
proof (induction i s arbitrary: last_zero rule: search_induct [where k = k])
  case (pass i s)
  show ?case
  proof (cases "i < 64")
    case False
    then show ?thesis
      by (simp add: wireSearch_loop_done)
  next
    case True
    then have i: "unat i < 64" "unat (i + 1) = Suc (unat i)"
      by (simp_all add: word_less_nat_alt u8_succ)
    show ?thesis
    proof (cases "search_abort k (fst (wireSearch_triplet k i s))")
      case abort: True
      have "searchAddress (snd (wireSearch_triplet k i s)) = searchAddress s"
        using bus_progress_triplet [of s s k i] by (simp add: bus_progress_def bus_progress_refl)
      with True abort show ?thesis
        by (simp add: wireSearch_loop_step)
    next
      case cont: False
      let ?lz = "if search_discrepancy k (fst (wireSearch_triplet k i s)) then i else last_zero"
      have loop: "wireSearch_loop k i last_zero s = wireSearch_loop k (i + 1) ?lz (search_next k i s)"
        using True cont by (simp add: wireSearch_loop_step)
      have sts: "wireSearch_statuses k i s =
          fst (wireSearch_triplet k i s) # wireSearch_statuses k (i + 1) (search_next k i s)"
        using True cont by (simp add: wireSearch_statuses_step)
      define n' where "n' = length (wireSearch_statuses k (i + 1) (search_next k i s))"
      define c :: nat where
        "c = (if fst (wireSearch_loop k (i + 1) ?lz (search_next k i s)) = None then 1 else 0)"
      have c: "c \<le> 1" "c = 1 \<Longrightarrow> 0 < n'"
        by (auto simp add: c_def n'_def wireSearch_loop_aborted)
      have "j < unat i \<or> unat i + (Suc n' - c) \<le> j"
        using pass.prems unfolding loop sts c_def n'_def by simp
      with c have range': "j < Suc (unat i) \<or> Suc (unat i) + (n' - c) \<le> j" and ne: "j \<noteq> unat i"
        by (cases "c = 1"; simp; linarith)+
      have range: "j < unat (i + 1) \<or>
          unat (i + 1) + (length (wireSearch_statuses k (i + 1) (search_next k i s)) -
            (if fst (wireSearch_loop k (i + 1) ?lz (search_next k i s)) = None then 1 else 0)) \<le> j"
        using range' unfolding c_def n'_def i by simp
      have "rom_bit (searchAddress (snd (wireSearch_loop k (i + 1) ?lz (search_next k i s)))) j =
          rom_bit (searchAddress (search_next k i s)) j"
        using True cont range by (rule pass.IH)
      then show ?thesis
        by (simp add: loop search_next_other_bit [OF ne])
    qed
  qed
qed

lemma bus_progress_search_entry: "bus_progress s (search_entry k s)"
  unfolding search_entry_def
  by (intro bus_progress_wireWriteByte bus_progress_waitOnBusy bus_progress_wireReset
      bus_progress_refl)

lemma wireSearch_cases:
  "wireSearch k address s =
     (if searchLastDeviceFlag s \<noteq> 0 then (0, address, s)
      else if fst (wireReset k s) = 0 then (0, address, snd (wireReset k s))
      else case fst (wireSearch_loop k 0 0 (search_entry k s)) of
        None \<Rightarrow> (0, address, snd (wireSearch_loop k 0 0 (search_entry k s)))
      | Some last_zero \<Rightarrow>
          (1,
           fold (\<lambda>i a. a[i := searchAddress (snd (wireSearch_loop k 0 0 (search_entry k s))) ! i])
             [0..<8] address,
           (if last_zero = 0
            then (snd (wireSearch_loop k 0 0 (search_entry k s)))
                   \<lparr>searchLastDiscrepancy := last_zero, searchLastDeviceFlag := 1\<rparr>
            else (snd (wireSearch_loop k 0 0 (search_entry k s)))
                   \<lparr>searchLastDiscrepancy := last_zero\<rparr>)))"
  by (simp add: wireSearch_def search_entry_def Let_def case_prod_beta split: option.split)

text \<open>
  C10. When \<^verbatim>\<open>wireSearch\<close> passes its two early returns (the flag is clear and the reset
  finds a device) and the last triplet status it captures has both the sampled bit and
  its complement set, it returns 0, the caller's array is as it was, and so are
  \<^verbatim>\<open>searchLastDiscrepancy\<close> and \<^verbatim>\<open>searchLastDeviceFlag\<close>. Of \<^verbatim>\<open>searchAddress\<close> only the bits of the
  passes completed before may differ: with \<open>n\<close> statuses captured, every bit from
  position \<open>n - 1\<close> on is as it was.
\<close>

theorem wireSearch_abort_keeps_search_state:
  fixes k :: ds2482_defs and address :: "u8 list" and s :: machine
  defines "statuses \<equiv> wireSearch_statuses k 0 (search_entry k s)"
  defines "s' \<equiv> snd (snd (wireSearch k address s))"
  assumes "searchLastDeviceFlag s = 0" and "fst (wireReset k s) \<noteq> 0"
    and "search_abort k (last statuses)"
  shows "fst (wireSearch k address s) = 0 \<and> fst (snd (wireSearch k address s)) = address \<and>
    searchLastDiscrepancy s' = searchLastDiscrepancy s \<and>
    searchLastDeviceFlag s' = searchLastDeviceFlag s \<and>
    length (searchAddress s') = length (searchAddress s) \<and>
    (\<forall>j. length statuses - 1 \<le> j \<longrightarrow>
       rom_bit (searchAddress s') j = rom_bit (searchAddress s) j)"
proof -
  let ?e = "search_entry k s"
  have ne: "statuses \<noteq> []"
    unfolding statuses_def by (rule wireSearch_statuses_nonempty) simp
  with assms(5) have none: "fst (wireSearch_loop k 0 0 ?e) = None"
    by (simp add: wireSearch_loop_aborted statuses_def)
  with assms(3,4) have w: "wireSearch k address s = (0, address, snd (wireSearch_loop k 0 0 ?e))"
    by (simp add: wireSearch_cases)
  then have s': "s' = snd (wireSearch_loop k 0 0 ?e)"
    by (simp add: s'_def)
  have e: "bus_progress s ?e"
    by (rule bus_progress_search_entry)
  then have "search_progress s ?e"
    by (simp add: bus_progress_def search_progress_def)
  then have p: "search_progress s s'"
    unfolding s' by (rule wireSearch_loop_progress)
  have "rom_bit (searchAddress s') j = rom_bit (searchAddress s) j"
    if "length statuses - 1 \<le> j" for j
  proof -
    have "rom_bit (searchAddress s') j = rom_bit (searchAddress ?e) j"
      unfolding s' using that none
      by (intro wireSearch_loop_other_bits) (simp add: statuses_def)
    with e show ?thesis
      by (simp add: bus_progress_def)
  qed
  with w p show ?thesis
    by (simp add: search_progress_def)
qed

lemmas search_defs = run_more wireSearch_cases search_entry_def wireWriteByte_def
  wireSearch_triplet_def wireSearch_store_def search_direction_def searchByte_def searchBit_def
  wireSearch_loop_step wireSearch_loop_done wireSearch_statuses_step wireSearch_statuses_done
  search_next_def search_abort_def search_discrepancy_def config_payload_0x00

lemma unplugged_statuses:
  "wireSearch_statuses datasheet 0 (search_entry datasheet unplugged) = [0x80, 0x00, 0x60]"
  by (simp add: search_defs unplugged_def cong: let_value_cong)

text \<open>
  A run of C10: the third triplet status ends the pass. Bit 0 of the buffer has been
  set and bit 1 cleared; bit 2 and everything else are untouched.
\<close>

theorem wireSearch_abort_keeps_search_state_witness:
  "searchLastDeviceFlag unplugged = 0 \<and> fst (wireReset datasheet unplugged) \<noteq> 0 \<and>
   wireSearch_statuses datasheet 0 (search_entry datasheet unplugged) = [0x80, 0x00, 0x60] \<and>
   search_abort datasheet 0x60 \<and>
   fst (wireSearch datasheet [1, 2, 3, 4, 5, 6, 7, 8] unplugged) = 0 \<and>
   fst (snd (wireSearch datasheet [1, 2, 3, 4, 5, 6, 7, 8] unplugged)) = [1, 2, 3, 4, 5, 6, 7, 8] \<and>
   searchLastDiscrepancy (snd (snd (wireSearch datasheet [1, 2, 3, 4, 5, 6, 7, 8] unplugged))) = 7 \<and>
   searchLastDeviceFlag (snd (snd (wireSearch datasheet [1, 2, 3, 4, 5, 6, 7, 8] unplugged))) = 0 \<and>
   searchAddress unplugged = [0x04, 0, 0, 0, 0, 0, 0, 0] \<and>
   searchAddress (snd (snd (wireSearch datasheet [1, 2, 3, 4, 5, 6, 7, 8] unplugged))) =
     [0x05, 0, 0, 0, 0, 0, 0, 0]"
proof -
  have flag: "searchLastDeviceFlag unplugged = 0"
    by (simp add: unplugged_def powered_up_def)
  have present: "fst (wireReset datasheet unplugged) \<noteq> 0"
    by (simp add: search_defs unplugged_def cong: let_value_cong)
  have abort: "search_abort datasheet
      (last (wireSearch_statuses datasheet 0 (search_entry datasheet unplugged)))"
    by (simp only: unplugged_statuses) (simp add: search_abort_def datasheet_def)
  have rom: "searchAddress (snd (snd (wireSearch datasheet [1, 2, 3, 4, 5, 6, 7, 8] unplugged))) =
      [0x05, 0, 0, 0, 0, 0, 0, 0]"
    by (simp add: search_defs unplugged_def cong: let_value_cong)
  from wireSearch_abort_keeps_search_state [OF flag present abort, of "[1, 2, 3, 4, 5, 6, 7, 8]"]
    flag present rom
  show ?thesis
    by (simp add: unplugged_statuses search_abort_def) (simp add: unplugged_def powered_up_def datasheet_def)
qed

lemma wireResetSearch_fold_fields:
  "searchLastDeviceFlag (fold (\<lambda>i s'. s'\<lparr>searchAddress := (searchAddress s')[i := 0]\<rparr>) is s) =
     searchLastDeviceFlag s \<and>
   searchLastDiscrepancy (fold (\<lambda>i s'. s'\<lparr>searchAddress := (searchAddress s')[i := 0]\<rparr>) is s) =
     searchLastDiscrepancy s"
  by (induction "is" arbitrary: s) simp_all

lemma wireResetSearch_flag:
  "searchLastDeviceFlag (wireResetSearch s) = 0" "searchLastDiscrepancy (wireResetSearch s) = 0"
  by (simp_all add: wireResetSearch_def Let_def wireResetSearch_fold_fields)

lemma perform_bus_progress:
  assumes "op \<noteq> WireResetSearch" and "\<forall>address. op \<noteq> WireSearch address"
    and "perform k op s = Some s'"
  shows "bus_progress s s'"
proof (cases op)
  case (WireWriteBytes dbuf count pwr)
  with assms(3) show ?thesis
    by (auto intro: bus_progress_wireWriteBytes [OF bus_progress_refl])
next
  case (WireSelect rom)
  with assms(3) show ?thesis
    by (auto split: if_splits intro: bus_progress_wireSelect [OF bus_progress_refl])
qed (use assms in \<open>auto intro!: bus_progress_basic bus_progress_writeConfig
      bus_progress_setStrongPullup bus_progress_clearStrongPullup bus_progress_wireReset
      bus_progress_wireWriteByte bus_progress_wireReadByte bus_progress_wireWriteBit
      bus_progress_wireReadBit bus_progress_wireSkip bus_progress_checkPresence
      bus_progress_deviceReset bus_progress_refl\<close>)

lemma perform_keeps_flag:
  assumes "searchLastDeviceFlag s \<noteq> 0" and "op \<noteq> WireResetSearch"
    and "perform k op s = Some s'"
  shows "searchLastDeviceFlag s' = searchLastDeviceFlag s"
proof (cases "\<exists>address. op = WireSearch address")
  case True
  with assms(1,3) show ?thesis
    by (auto simp add: wireSearch_cases)
next
  case False
  with assms(2,3) have "bus_progress s s'"
    by (intro perform_bus_progress [of op k s s']) auto
  then show ?thesis
    by (simp add: bus_progress_def)
qed

lemma perform_all_keeps_flag:
  "searchLastDeviceFlag s \<noteq> 0 \<Longrightarrow> WireResetSearch \<notin> set ops \<Longrightarrow>
     perform_all k ops s = Some s' \<Longrightarrow> searchLastDeviceFlag s' = searchLastDeviceFlag s"
proof (induction ops arbitrary: s)
  case Nil
  then show ?case by simp
next
  case (Cons op ops)
  from Cons.prems(3) obtain t where t: "perform k op s = Some t" "perform_all k ops t = Some s'"
    by (auto split: option.splits)
  from Cons.prems(1,2) t(1) have flag: "searchLastDeviceFlag t = searchLastDeviceFlag s"
    by (intro perform_keeps_flag [of s op k t]) auto
  with Cons.prems(1,2) t(2) Cons.IH [of t] show ?case
    by simp
qed

text \<open>
  C9. With the last-device flag set, \<^verbatim>\<open>wireSearch\<close> returns 0 and leaves the caller's array
  and the whole state as they are: nothing is put on the bus and no field is written.
  Every other member function but \<^verbatim>\<open>wireResetSearch\<close> leaves the flag as it is, so after
  any sequence of calls without \<^verbatim>\<open>wireResetSearch\<close> the flag is still set and \<^verbatim>\<open>wireSearch\<close>
  still returns 0 at once. \<^verbatim>\<open>wireResetSearch\<close> clears the flag.
\<close>

theorem last_device_flag_sticky:
  assumes "searchLastDeviceFlag s \<noteq> 0"
  shows "wireSearch k address s = (0, address, s) \<and>
    (\<forall>op s'. op \<noteq> WireResetSearch \<longrightarrow> perform k op s = Some s' \<longrightarrow>
       searchLastDeviceFlag s' = searchLastDeviceFlag s) \<and>
    (\<forall>ops s'. WireResetSearch \<notin> set ops \<longrightarrow> perform_all k ops s = Some s' \<longrightarrow>
       searchLastDeviceFlag s' = searchLastDeviceFlag s \<and>
       wireSearch k address s' = (0, address, s')) \<and>
    searchLastDeviceFlag (wireResetSearch s) = 0"
proof -
  have "wireSearch k address s' = (0, address, s')"
    if "WireResetSearch \<notin> set ops" "perform_all k ops s = Some s'" for ops s'
    using perform_all_keeps_flag [OF assms that] assms by (simp add: wireSearch_cases)
  with assms show ?thesis
    by (auto simp add: wireSearch_cases wireResetSearch_flag
        intro: perform_keeps_flag perform_all_keeps_flag)
qed

text \<open>
  A run of C9: a reset, a search and a skip command on the object with the flag set.
\<close>

theorem last_device_flag_sticky_witness:
  "searchLastDeviceFlag enumerated \<noteq> 0 \<and>
   wireSearch datasheet [1, 2, 3, 4, 5, 6, 7, 8] enumerated = (0, [1, 2, 3, 4, 5, 6, 7, 8], enumerated) \<and>
   map_option searchLastDeviceFlag
     (perform_all datasheet [WireReset, WireSearch [1, 2, 3, 4, 5, 6, 7, 8], WireSkip] enumerated) =
     Some 1 \<and>
   map_option (\<lambda>s. fst (wireSearch datasheet [1, 2, 3, 4, 5, 6, 7, 8] s))
     (perform_all datasheet [WireReset, WireSearch [1, 2, 3, 4, 5, 6, 7, 8], WireSkip] enumerated) =
     Some 0 \<and>
   fst (wireReset datasheet enumerated) = 1 \<and>
   searchLastDeviceFlag (wireResetSearch enumerated) = 0"
proof -
  let ?a = "[1, 2, 3, 4, 5, 6, 7, 8] :: u8 list"
  let ?ops = "[WireReset, WireSearch ?a, WireSkip]"
  define s' where
    "s' = wireSkip datasheet (snd (snd (wireSearch datasheet ?a (snd (wireReset datasheet enumerated)))))"
  have flag: "searchLastDeviceFlag enumerated \<noteq> 0" and one: "searchLastDeviceFlag enumerated = 1"
    by (simp_all add: enumerated_def powered_up_def)
  have run: "perform_all datasheet ?ops enumerated = Some s'"
    by (simp add: s'_def)
  have present: "fst (wireReset datasheet enumerated) = 1"
    by (simp add: search_defs enumerated_def cong: let_value_cong)
  note sticky = last_device_flag_sticky [OF flag, of datasheet ?a]
  from sticky have "WireResetSearch \<notin> set ?ops \<longrightarrow> perform_all datasheet ?ops enumerated = Some s' \<longrightarrow>
      searchLastDeviceFlag s' = searchLastDeviceFlag enumerated \<and>
      wireSearch datasheet ?a s' = (0, ?a, s')"
    by blast
  with run have after: "searchLastDeviceFlag s' = 1" "fst (wireSearch datasheet ?a s') = 0"
    by (simp_all add: one)
  from sticky have first: "wireSearch datasheet ?a enumerated = (0, ?a, enumerated)"
    and reset: "searchLastDeviceFlag (wireResetSearch enumerated) = 0"
    by blast+
  from flag first after present reset show ?thesis
    by (simp only: run option.map) simp
qed

subsection \<open>The last discrepancy of a pass\<close>

lemma discrepancy_positions_Nil: "discrepancy_positions k [] = []"
  by (simp add: discrepancy_positions_def)

lemma discrepancy_positions_Cons:
  "discrepancy_positions k (st # sts) =
     (if search_discrepancy k st then [0] else []) @ map Suc (discrepancy_positions k sts)"
proof -
  have "[0..<length (st # sts)] = 0 # map Suc [0..<length sts]"
    by (simp add: upt_conv_Cons map_Suc_upt del: upt_Suc)
  then show ?thesis
    by (simp add: discrepancy_positions_def filter_map comp_def del: upt_Suc)
qed

lemma discrepancy_positions_bound: "j \<in> set (discrepancy_positions k sts) \<Longrightarrow> j < length sts"
  by (simp add: discrepancy_positions_def)

lemma wireSearch_loop_last_zero:
  "fst (wireSearch_loop k i last_zero s) = Some z \<Longrightarrow>
     z = (if discrepancy_positions k (wireSearch_statuses k i s) = [] then last_zero
          else i + of_nat (last (discrepancy_positions k (wireSearch_statuses k i s))))"
proof (induction i s arbitrary: last_zero rule: search_induct [where k = k])
  case (pass i s)
  show ?case
  proof (cases "i < 64")
    case False
    with pass.prems show ?thesis
      by (simp add: wireSearch_loop_done wireSearch_statuses_done discrepancy_positions_Nil)
  next
    case True
    let ?st = "fst (wireSearch_triplet k i s)"
    let ?t = "search_next k i s"
    let ?z = "if search_discrepancy k ?st then i else last_zero"
    let ?D = "discrepancy_positions k (wireSearch_statuses k (i + 1) ?t)"
    from True pass.prems have cont: "\<not> search_abort k ?st"
      by (auto simp add: wireSearch_loop_step split: if_splits)
    with True pass.prems have "fst (wireSearch_loop k (i + 1) ?z ?t) = Some z"
      by (simp add: wireSearch_loop_step)
    then have z: "z = (if ?D = [] then ?z else i + 1 + of_nat (last ?D))"
      by (rule pass.IH [OF True cont])
    from True cont have sts: "wireSearch_statuses k i s = ?st # wireSearch_statuses k (i + 1) ?t"
      by (simp add: wireSearch_statuses_step)
    show ?thesis
      unfolding sts discrepancy_positions_Cons z
      by (simp add: last_map last_append)
  qed
qed

lemma waitOnBusy_idle:
  assumes "incoming_byte s (wire_taken s) AND DS2482_STATUS_BUSY k = 0"
  shows "wire_taken (snd (waitOnBusy k s)) = Suc (wire_taken s)"
    and "fst (waitOnBusy k s) = incoming_byte s (wire_taken s)"
proof -
  let ?r' = "wire_taken (snd (waitOnBusy_loop k 1000 0 s))"
  have "wire_taken s < ?r'"
    using loop_count [of s k 1000 0] by simp
  moreover have "\<not> Suc (wire_taken s) < ?r'"
    using loop_earlier_busy [of s "wire_taken s" k 1000 0] assms by auto
  ultimately have "?r' = Suc (wire_taken s)"
    by simp
  then show "wire_taken (snd (waitOnBusy k s)) = Suc (wire_taken s)"
    by (simp add: waitOnBusy_taken)
  then show "fst (waitOnBusy k s) = incoming_byte s (wire_taken s)"
    by (simp add: waitOnBusy_last_read)
qed

lemma wireSearch_triplet_idle:
  assumes "\<forall>n. incoming_byte s n AND DS2482_STATUS_BUSY k = 0"
  shows "fst (wireSearch_triplet k i s) = incoming_byte s (Suc (wire_taken s))"
    and "wire_taken (snd (wireSearch_triplet k i s)) = Suc (Suc (wire_taken s))"
proof -
  let ?p = "if search_direction s i \<noteq> 0 then 0x80 else 0x00 :: u8"
  let ?s1 = "snd (waitOnBusy k s)"
  let ?s5 = "snd (wire_end (writeByte ?p (writeByte (DS2482_COMMAND_TRIPLET k) (wire_begin ?s1))))"
  have s1: "wire_taken ?s1 = Suc (wire_taken s)"
    using assms by (simp add: waitOnBusy_idle)
  have "bus_progress s ?s5"
    by (intro bus_progress_basic bus_progress_waitOnBusy bus_progress_refl)
  then have ib: "incoming_byte ?s5 = incoming_byte s"
    by (rule bus_progress_incoming_byte)
  have s5: "wire_taken ?s5 = Suc (wire_taken s)"
    using s1 by (simp add: wire_end_def writeByte_def wire_begin_def emit_def)
  have idle5: "incoming_byte ?s5 (wire_taken ?s5) AND DS2482_STATUS_BUSY k = 0"
    using assms by (simp only: ib)
  have t: "wireSearch_triplet k i s = waitOnBusy k ?s5"
    by (simp add: wireSearch_triplet_def Let_def)
  show "fst (wireSearch_triplet k i s) = incoming_byte s (Suc (wire_taken s))"
    using waitOnBusy_idle(2) [OF idle5] by (simp only: t ib s5)
  show "wire_taken (snd (wireSearch_triplet k i s)) = Suc (Suc (wire_taken s))"
    using waitOnBusy_idle(1) [OF idle5] by (simp only: t s5)
qed

lemma search_next_idle:
  assumes "\<forall>n. incoming_byte s n AND DS2482_STATUS_BUSY k = 0"
  shows "wire_taken (search_next k i s) = Suc (Suc (wire_taken s))"
    and "incoming_byte (search_next k i s) = incoming_byte s"
proof -
  show "wire_taken (search_next k i s) = Suc (Suc (wire_taken s))"
    using wireSearch_triplet_idle(2) [OF assms, of i]
    by (simp add: search_next_def wireSearch_store_def)
  have "bus_progress s (snd (wireSearch_triplet k i s))"
    by (intro bus_progress_triplet bus_progress_refl)
  then show "incoming_byte (search_next k i s) = incoming_byte s"
    by (simp add: search_next_def wireSearch_store_def incoming_byte_def bus_progress_def fun_eq_iff)
qed

lemma wireSearch_statuses_idle:
  assumes "\<forall>n. incoming_byte s n AND DS2482_STATUS_BUSY k = 0"
    and "\<forall>j < 64 - unat i. \<not> search_abort k (incoming_byte s (wire_taken s + 2 * j + 1))"
  shows "wireSearch_statuses k i s =
     map (\<lambda>j. incoming_byte s (wire_taken s + 2 * j + 1)) [0..<64 - unat i]"
  using assms
proof (induction i s rule: search_induct [where k = k])
  case (pass i s)
  show ?case
  proof (cases "i < 64")
    case False
    then have "64 - unat i = 0"
      by (simp add: word_less_nat_alt)
    with False show ?thesis
      by (simp add: wireSearch_statuses_done)
  next
    case True
    then have lt: "unat i < 64"
      by (simp add: word_less_nat_alt)
    let ?t = "search_next k i s"
    let ?m = "63 - unat i"
    have m: "64 - unat i = Suc ?m" "64 - unat (i + 1) = ?m"
      using lt True by (simp_all add: u8_succ)
    have st: "fst (wireSearch_triplet k i s) = incoming_byte s (Suc (wire_taken s))"
      by (rule wireSearch_triplet_idle [OF pass.prems(1)])
    have cont: "\<not> search_abort k (fst (wireSearch_triplet k i s))"
      using pass.prems(2) [rule_format, of 0] lt by (simp add: st)
    have t: "wire_taken ?t = Suc (Suc (wire_taken s))" "incoming_byte ?t = incoming_byte s"
      by (rule search_next_idle [OF pass.prems(1)])+
    have idle: "\<forall>n. incoming_byte ?t n AND DS2482_STATUS_BUSY k = 0"
      using pass.prems(1) by (simp add: t(2))
    have later: "\<forall>j < 64 - unat (i + 1).
        \<not> search_abort k (incoming_byte ?t (wire_taken ?t + 2 * j + 1))"
    proof (intro allI impI)
      fix j
      assume "j < 64 - unat (i + 1)"
      then have "Suc j < 64 - unat i"
        by (simp add: m)
      from pass.prems(2) [rule_format, OF this]
      show "\<not> search_abort k (incoming_byte ?t (wire_taken ?t + 2 * j + 1))"
        by (simp add: t)
    qed
    have "wireSearch_statuses k (i + 1) ?t =
        map (\<lambda>j. incoming_byte ?t (wire_taken ?t + 2 * j + 1)) [0..<64 - unat (i + 1)]"
      by (rule pass.IH [OF True cont idle later])
    then have rest: "wireSearch_statuses k (i + 1) ?t =
        map (\<lambda>j. incoming_byte s (wire_taken s + 2 * Suc j + 1)) [0..<?m]"
      by (simp add: t m)
    have "[0..<Suc ?m] = 0 # map Suc [0..<?m]"
      by (simp add: upt_conv_Cons map_Suc_upt del: upt_Suc)
    then have "map (\<lambda>j. incoming_byte s (wire_taken s + 2 * j + 1)) [0..<64 - unat i] =
        incoming_byte s (Suc (wire_taken s)) #
        map (\<lambda>j. incoming_byte s (wire_taken s + 2 * Suc j + 1)) [0..<?m]"
      by (simp only: m list.map map_map comp_def) simp
    with True cont st rest show ?thesis
      by (simp only: wireSearch_statuses_step [OF True] if_False)
  qed
qed

lemma u8_position_zero: "n < 64 \<Longrightarrow> (of_nat n :: u8) = 0 \<longleftrightarrow> n = 0"
  by (auto simp add: word_of_nat_eq_0_iff dest: nat_dvd_not_less)

text \<open>
  C2. In a completed pass (\<^verbatim>\<open>wireSearch\<close> returns 1) 64 statuses are captured, and
  \<^verbatim>\<open>searchLastDiscrepancy\<close> is left at the last position whose status has the sampled bit
  and its complement clear and direction 0 taken, or at 0 when there is no such position.
  \<^verbatim>\<open>searchLastDeviceFlag\<close> is set when there is no such position, and also when the last one
  is position 0: the loop counts the positions from 0 and keeps 0 in \<^verbatim>\<open>last_zero\<close> for
  none (lines 372, 412 and 425), so that it does not tell a discrepancy at bit 0 from no
  discrepancy. In every other case the flag stays clear.
\<close>

theorem wireSearch_last_discrepancy:
  fixes k :: ds2482_defs and address :: "u8 list" and s :: machine
  defines "statuses \<equiv> wireSearch_statuses k 0 (search_entry k s)"
  defines "positions \<equiv> discrepancy_positions k statuses"
  defines "s' \<equiv> snd (snd (wireSearch k address s))"
  assumes "fst (wireSearch k address s) \<noteq> 0"
  shows "length statuses = 64 \<and>
    searchLastDiscrepancy s' = (if positions = [] then 0 else of_nat (last positions)) \<and>
    searchLastDeviceFlag s' = (if positions = [] \<or> last positions = 0 then 1 else 0)"
proof -
  let ?e = "search_entry k s"
  let ?l = "snd (wireSearch_loop k 0 0 ?e)"
  from assms(4) have flag: "searchLastDeviceFlag s = 0"
    by (auto simp add: wireSearch_cases split: if_splits)
  from assms(4) obtain z where z: "fst (wireSearch_loop k 0 0 ?e) = Some z"
    by (auto simp add: wireSearch_cases split: if_splits option.splits)
  then have len: "length statuses = 64"
    using wireSearch_loop_completed [of k 0 0 ?e] by (simp add: statuses_def)
  have last_zero: "z = (if positions = [] then 0 else of_nat (last positions))"
    using wireSearch_loop_last_zero [OF z] by (simp add: positions_def statuses_def)
  have "last positions < 64" if "positions \<noteq> []"
    using discrepancy_positions_bound [of "last positions" k statuses] that len
    by (simp add: positions_def)
  then have none: "z = 0 \<longleftrightarrow> positions = [] \<or> last positions = 0"
    by (auto simp add: last_zero u8_position_zero)
  have "search_progress s ?e"
    using bus_progress_search_entry [of s k] by (simp add: bus_progress_def search_progress_def)
  then have "search_progress s ?l"
    by (rule wireSearch_loop_progress)
  with flag have kept: "searchLastDeviceFlag ?l = 0"
    by (simp add: search_progress_def)
  from assms(4) z have s': "s' = (if z = 0
      then ?l\<lparr>searchLastDiscrepancy := z, searchLastDeviceFlag := 1\<rparr>
      else ?l\<lparr>searchLastDiscrepancy := z\<rparr>)"
    by (auto simp add: s'_def wireSearch_cases split: if_splits)
  have "searchLastDiscrepancy s' = z"
    by (simp add: s')
  moreover have "searchLastDeviceFlag s' = (if z = 0 then 1 else 0)"
    by (simp add: s' kept)
  ultimately show ?thesis
    using len by (simp only: none last_zero [symmetric])
qed

lemma hot_plugged_entry:
  "wire_taken (search_entry datasheet hot_plugged) = 8"
  "fst (wireReset datasheet hot_plugged) \<noteq> 0"
  by (simp_all add: search_defs hot_plugged_def cong: let_value_cong)

lemma hot_plugged_incoming:
  "incoming_byte (search_entry datasheet hot_plugged) n =
     (if n = 5 then 0x02 else if n = 19 then 0x80 else if 11 \<le> n then 0x40 else 0x00)"
  using bus_progress_incoming_byte [OF bus_progress_search_entry, of datasheet hot_plugged]
  by (simp add: incoming_byte_def hot_plugged_def powered_up_def)

lemma hot_plugged_statuses:
  "wireSearch_statuses datasheet 0 (search_entry datasheet hot_plugged) =
     map (\<lambda>j. if j = 0 then 0x00 else if j = 5 then 0x80 else 0x40) [0..<64]"
proof -
  let ?e = "search_entry datasheet hot_plugged"
  have idle: "\<forall>n. incoming_byte ?e n AND DS2482_STATUS_BUSY datasheet = 0"
    by (simp only: hot_plugged_incoming) (simp add: datasheet_def)
  have "\<forall>j < 64 - unat (0 :: u8).
      \<not> search_abort datasheet (incoming_byte ?e (wire_taken ?e + 2 * j + 1))"
    by (simp only: hot_plugged_incoming hot_plugged_entry) (simp add: search_abort_def datasheet_def)
  from wireSearch_statuses_idle [OF idle this]
  have "wireSearch_statuses datasheet 0 ?e =
      map (\<lambda>j. incoming_byte ?e (wire_taken ?e + 2 * j + 1)) [0..<64]"
    by simp
  also have "\<dots> = map (\<lambda>j. if j = 0 then 0x00 else if j = 5 then 0x80 else 0x40) [0..<64]"
    by (rule map_cong [OF refl]) (auto simp add: hot_plugged_incoming hot_plugged_entry)
  finally show ?thesis .
qed

lemma statuses_list:
  "map (\<lambda>j. if j = 0 then 0x00 else if j = 5 then 0x80 else 0x40 :: u8) [0..<64] =
     [0x00, 0x40, 0x40, 0x40, 0x40, 0x80, 0x40, 0x40,
      0x40, 0x40, 0x40, 0x40, 0x40, 0x40, 0x40, 0x40,
      0x40, 0x40, 0x40, 0x40, 0x40, 0x40, 0x40, 0x40,
      0x40, 0x40, 0x40, 0x40, 0x40, 0x40, 0x40, 0x40,
      0x40, 0x40, 0x40, 0x40, 0x40, 0x40, 0x40, 0x40,
      0x40, 0x40, 0x40, 0x40, 0x40, 0x40, 0x40, 0x40,
      0x40, 0x40, 0x40, 0x40, 0x40, 0x40, 0x40, 0x40,
      0x40, 0x40, 0x40, 0x40, 0x40, 0x40, 0x40, 0x40]"
  by (simp add: upt_rec)

lemma hot_plugged_positions:
  "discrepancy_positions datasheet
     (map (\<lambda>j. if j = 0 then 0x00 else if j = 5 then 0x80 else 0x40) [0..<64]) = [0]"
  by (simp only: statuses_list discrepancy_positions_Cons discrepancy_positions_Nil)
    (simp add: search_discrepancy_def datasheet_def)

text \<open>
  A run of C2 in which the one position recorded is position 0: a discrepancy has
  occurred, and the pass ends with \<^verbatim>\<open>searchLastDiscrepancy\<close> 0 and the flag set, so that
  the next call returns 0 and the branch left at bit 0 is never searched.
\<close>

theorem wireSearch_last_discrepancy_witness:
  "searchLastDiscrepancy hot_plugged = 5 \<and> searchLastDeviceFlag hot_plugged = 0 \<and>
   searchAddress hot_plugged = [0, 0, 0, 0, 0, 0, 0, 0] \<and>
   fst (wireSearch datasheet [1, 2, 3, 4, 5, 6, 7, 8] hot_plugged) = 1 \<and>
   wireSearch_statuses datasheet 0 (search_entry datasheet hot_plugged) =
     [0x00, 0x40, 0x40, 0x40, 0x40, 0x80, 0x40, 0x40,
      0x40, 0x40, 0x40, 0x40, 0x40, 0x40, 0x40, 0x40,
      0x40, 0x40, 0x40, 0x40, 0x40, 0x40, 0x40, 0x40,
      0x40, 0x40, 0x40, 0x40, 0x40, 0x40, 0x40, 0x40,
      0x40, 0x40, 0x40, 0x40, 0x40, 0x40, 0x40, 0x40,
      0x40, 0x40, 0x40, 0x40, 0x40, 0x40, 0x40, 0x40,
      0x40, 0x40, 0x40, 0x40, 0x40, 0x40, 0x40, 0x40,
      0x40, 0x40, 0x40, 0x40, 0x40, 0x40, 0x40, 0x40] \<and>
   search_discrepancy datasheet 0x00 \<and> \<not> search_discrepancy datasheet 0x40 \<and>
   \<not> search_discrepancy datasheet 0x80 \<and>
   discrepancy_positions datasheet
     (wireSearch_statuses datasheet 0 (search_entry datasheet hot_plugged)) = [0] \<and>
   searchLastDiscrepancy (snd (snd (wireSearch datasheet [1, 2, 3, 4, 5, 6, 7, 8] hot_plugged))) = 0 \<and>
   searchLastDeviceFlag (snd (snd (wireSearch datasheet [1, 2, 3, 4, 5, 6, 7, 8] hot_plugged))) = 1"
proof -
  let ?e = "search_entry datasheet hot_plugged"
  let ?w = "wireSearch datasheet [1, 2, 3, 4, 5, 6, 7, 8] hot_plugged"
  have before: "searchLastDiscrepancy hot_plugged = 5" "searchLastDeviceFlag hot_plugged = 0"
    "searchAddress hot_plugged = [0, 0, 0, 0, 0, 0, 0, 0]"
    by (simp_all add: hot_plugged_def powered_up_def)
  have tests: "search_discrepancy datasheet 0x00" "\<not> search_discrepancy datasheet 0x40"
    "\<not> search_discrepancy datasheet 0x80" "\<not> search_abort datasheet 0x40"
    by (simp_all add: search_discrepancy_def search_abort_def datasheet_def)
  have sts: "wireSearch_statuses datasheet 0 ?e =
      map (\<lambda>j. if j = 0 then 0x00 else if j = 5 then 0x80 else 0x40) [0..<64]"
    by (rule hot_plugged_statuses)
  have "last (wireSearch_statuses datasheet 0 ?e) = 0x40"
    by (simp only: sts statuses_list) simp
  with tests(4) have "fst (wireSearch_loop datasheet 0 0 ?e) \<noteq> None"
    by (simp only: wireSearch_loop_aborted) simp
  with before(2) hot_plugged_entry(2) have completed: "fst ?w = 1"
    by (auto simp add: wireSearch_cases split: option.splits)
  then have "fst ?w \<noteq> 0"
    by simp
  from wireSearch_last_discrepancy [OF this]
  have "searchLastDiscrepancy (snd (snd ?w)) = 0 \<and> searchLastDeviceFlag (snd (snd ?w)) = 1"
    by (simp only: sts hot_plugged_positions) simp
  moreover have "discrepancy_positions datasheet (wireSearch_statuses datasheet 0 ?e) = [0]"
    by (simp only: sts hot_plugged_positions)
  moreover have "wireSearch_statuses datasheet 0 ?e =
     [0x00, 0x40, 0x40, 0x40, 0x40, 0x80, 0x40, 0x40,
      0x40, 0x40, 0x40, 0x40, 0x40, 0x40, 0x40, 0x40,
      0x40, 0x40, 0x40, 0x40, 0x40, 0x40, 0x40, 0x40,
      0x40, 0x40, 0x40, 0x40, 0x40, 0x40, 0x40, 0x40,
      0x40, 0x40, 0x40, 0x40, 0x40, 0x40, 0x40, 0x40,
      0x40, 0x40, 0x40, 0x40, 0x40, 0x40, 0x40, 0x40,
      0x40, 0x40, 0x40, 0x40, 0x40, 0x40, 0x40, 0x40,
      0x40, 0x40, 0x40, 0x40, 0x40, 0x40, 0x40, 0x40]"
    by (simp only: sts statuses_list)
  ultimately show ?thesis
    using before tests(1-3) completed by simp
qed

subsection \<open>The directions forced by the search\<close>

lemma emits_refl: "emits k s s []"
  by (simp add: emits_def)

lemma emits_trans: "emits k s t ps \<Longrightarrow> emits k t u qs \<Longrightarrow> emits k s u (ps @ qs)"
  unfolding emits_def
  by (elim exE conjE, rule_tac x = "evs @ evsa" in exI) simp

lemma emits_same_history: "history s' = history s \<Longrightarrow> emits k s s' []"
  by (simp add: emits_def)

lemma emits_silent: "emits k s t [] \<Longrightarrow> emits k t u ps \<Longrightarrow> emits k s u ps"
  using emits_trans [of k s t "[]" u ps] by simp

lemma emits_then_silent: "emits k s t ps \<Longrightarrow> emits k t u [] \<Longrightarrow> emits k s u ps"
  using emits_trans [of k s t ps u "[]"] by simp

lemma tp_status_poll:
  "DS2482_COMMAND_SRP k \<noteq> DS2482_COMMAND_TRIPLET k \<Longrightarrow>
     triplet_payloads k (status_poll k a b @ rest) = triplet_payloads k rest"
  by (simp add: status_poll_def)

lemma tp_polls:
  "DS2482_COMMAND_SRP k \<noteq> DS2482_COMMAND_TRIPLET k \<Longrightarrow>
     triplet_payloads k (polls k a bs @ rest) = triplet_payloads k rest"
  by (induction bs) (simp_all add: polls_def tp_status_poll)

lemma tp_config_read:
  "DS2482_COMMAND_SRP k \<noteq> DS2482_COMMAND_TRIPLET k \<Longrightarrow>
     triplet_payloads k (config_read k a c @ rest) = triplet_payloads k rest"
  by (simp add: config_read_def)

lemma tp_config_write:
  "DS2482_COMMAND_WRITECONFIG k \<noteq> DS2482_COMMAND_TRIPLET k \<Longrightarrow>
     triplet_payloads k (config_write k a p b @ rest) = triplet_payloads k rest"
  by (simp add: config_write_def)

lemma tp_reset_command:
  "triplet_payloads k (reset_command k a @ rest) = triplet_payloads k rest"
  by (simp add: reset_command_def)

lemma tp_command:
  "triplet_payloads k ([BeginTransmission a, WireWrite c, WireWrite p, EndTransmission] @ rest) =
     (if c = DS2482_COMMAND_TRIPLET k then [p] else []) @ triplet_payloads k rest"
  by simp

lemma emits_waitOnBusy:
  assumes "DS2482_COMMAND_SRP k \<noteq> DS2482_COMMAND_TRIPLET k"
  shows "emits k s (snd (waitOnBusy k s)) []"
proof -
  obtain bs where "history (snd (waitOnBusy k s)) = history s @ polls k (mAddress s) bs"
    using waitOnBusy_history [of k s] by blast
  with assms show ?thesis
    unfolding emits_def by (intro exI [of _ "polls k (mAddress s) bs"]) (simp add: tp_polls)
qed

lemma emits_wireReset:
  assumes "DS2482_COMMAND_SRP k \<noteq> DS2482_COMMAND_TRIPLET k"
    and "DS2482_COMMAND_WRITECONFIG k \<noteq> DS2482_COMMAND_TRIPLET k"
  shows "emits k s (snd (wireReset k s)) []"
proof -
  obtain bs1 c bs2 readback bs3 bs4 where
    "history (snd (wireReset k s)) =
       history s @ polls k (mAddress s) bs1 @ config_read k (mAddress s) c @
       polls k (mAddress s) bs2 @
       config_write k (mAddress s)
         (config_payload (c AND logical_not (DS2482_CONFIG_SPU k))) readback @
       polls k (mAddress s) bs3 @ reset_command k (mAddress s) @ polls k (mAddress s) bs4"
    using wireReset_trace [of k s] by blast
  with assms show ?thesis
    unfolding emits_def
    by (intro exI [of _ "polls k (mAddress s) bs1 @ config_read k (mAddress s) c @
       polls k (mAddress s) bs2 @
       config_write k (mAddress s)
         (config_payload (c AND logical_not (DS2482_CONFIG_SPU k))) readback @
       polls k (mAddress s) bs3 @ reset_command k (mAddress s) @ polls k (mAddress s) bs4"])
      (simp add: tp_polls tp_config_read tp_config_write tp_reset_command)
qed

lemma two_byte_command_history:
  "history (snd (wire_end (writeByte p (writeByte c (wire_begin s))))) =
     history s @ [BeginTransmission (mAddress s), WireWrite c, WireWrite p, EndTransmission]"
  by (simp add: wire_end_def writeByte_def wire_begin_def emit_def history_def)

lemma emits_two_byte_command:
  "emits k s (snd (wire_end (writeByte p (writeByte c (wire_begin s)))))
     (if c = DS2482_COMMAND_TRIPLET k then [p] else [])"
  unfolding emits_def
  by (intro exI [of _ "[BeginTransmission (mAddress s), WireWrite c, WireWrite p, EndTransmission]"])
    (simp add: two_byte_command_history)

lemma emits_wireWriteByte:
  assumes "DS2482_COMMAND_SRP k \<noteq> DS2482_COMMAND_TRIPLET k"
    and "DS2482_COMMAND_WRITEBYTE k \<noteq> DS2482_COMMAND_TRIPLET k"
  shows "emits k s (wireWriteByte k d 0 s) []"
  using emits_trans [OF emits_waitOnBusy [OF assms(1), of s]
      emits_two_byte_command [of k "snd (waitOnBusy k s)" d "DS2482_COMMAND_WRITEBYTE k"]] assms(2)
  by (simp add: wireWriteByte_def Let_def)

lemma emits_search_entry:
  assumes "DS2482_COMMAND_SRP k \<noteq> DS2482_COMMAND_TRIPLET k"
    and "DS2482_COMMAND_WRITECONFIG k \<noteq> DS2482_COMMAND_TRIPLET k"
    and "DS2482_COMMAND_WRITEBYTE k \<noteq> DS2482_COMMAND_TRIPLET k"
  shows "emits k s (search_entry k s) []"
proof -
  let ?s1 = "snd (wireReset k s)"
  let ?s2 = "snd (waitOnBusy k ?s1)"
  have "emits k s ?s1 []"
    by (rule emits_wireReset [OF assms(1,2)])
  moreover have "emits k ?s1 ?s2 []"
    by (rule emits_waitOnBusy [OF assms(1)])
  moreover have "emits k ?s2 (wireWriteByte k (WIRE_COMMAND_SEARCH k) 0 ?s2) []"
    by (rule emits_wireWriteByte [OF assms(1,3)])
  ultimately show ?thesis
    unfolding search_entry_def by (blast intro: emits_silent)
qed

lemma emits_triplet:
  assumes "DS2482_COMMAND_SRP k \<noteq> DS2482_COMMAND_TRIPLET k"
  shows "emits k s (snd (wireSearch_triplet k i s))
     [if search_direction s i \<noteq> 0 then 0x80 else 0x00]"
proof -
  let ?p = "if search_direction s i \<noteq> 0 then 0x80 else 0x00 :: u8"
  let ?s1 = "snd (waitOnBusy k s)"
  let ?s5 = "snd (wire_end (writeByte ?p (writeByte (DS2482_COMMAND_TRIPLET k) (wire_begin ?s1))))"
  have "emits k s ?s5 [?p]"
    using emits_silent [OF emits_waitOnBusy [OF assms, of s]
        emits_two_byte_command [of k ?s1 ?p "DS2482_COMMAND_TRIPLET k"]]
    by simp
  then have "emits k s (snd (waitOnBusy k ?s5)) [?p]"
    by (rule emits_then_silent) (rule emits_waitOnBusy [OF assms])
  then show ?thesis
    by (simp add: wireSearch_triplet_def Let_def)
qed

lemma history_wireSearch_store: "history (wireSearch_store d i s) = history s"
  by (simp add: wireSearch_store_def history_def)

lemma emits_search_next:
  assumes "DS2482_COMMAND_SRP k \<noteq> DS2482_COMMAND_TRIPLET k"
  shows "emits k s (search_next k i s) [if search_direction s i \<noteq> 0 then 0x80 else 0x00]"
  unfolding search_next_def
  by (rule emits_then_silent [OF emits_triplet [OF assms]])
    (simp add: emits_same_history history_wireSearch_store)

lemma forced_direction_search_direction:
  "i < 64 \<Longrightarrow> forced_direction s (unat i) \<longleftrightarrow> search_direction s i \<noteq> 0"
  unfolding forced_direction_def search_direction_forced
  by (simp add: word_less_nat_alt [symmetric] word_unat_eq_iff [symmetric])

lemma forced_direction_search_next:
  "unat i < j \<Longrightarrow> forced_direction (search_next k i s) j = forced_direction s j"
  using bus_progress_triplet [of s s k i] search_next_other_bit [of j i k s]
  by (simp add: forced_direction_def search_next_def wireSearch_store_def bus_progress_def)

lemma emits_loop:
  assumes srp: "DS2482_COMMAND_SRP k \<noteq> DS2482_COMMAND_TRIPLET k"
  shows "emits k s (snd (wireSearch_loop k i last_zero s))
     (map (\<lambda>j. if forced_direction s j then 0x80 else 0x00)
        [unat i..<unat i + length (wireSearch_statuses k i s)])"
proof (induction i s arbitrary: last_zero rule: search_induct [where k = k])
  case (pass i s)
  show ?case
  proof (cases "i < 64")
    case False
    then show ?thesis
      by (simp add: wireSearch_loop_done wireSearch_statuses_done emits_refl)
  next
    case True
    let ?p = "if forced_direction s (unat i) then 0x80 else 0x00 :: u8"
    have p: "(if search_direction s i \<noteq> 0 then 0x80 else 0x00 :: u8) = ?p"
      using True by (simp add: forced_direction_search_direction)
    show ?thesis
    proof (cases "search_abort k (fst (wireSearch_triplet k i s))")
      case abort: True
      with True emits_triplet [OF srp, of s i] show ?thesis
        by (simp add: wireSearch_loop_step wireSearch_statuses_step p)
    next
      case cont: False
      let ?t = "search_next k i s"
      let ?n = "length (wireSearch_statuses k (i + 1) ?t)"
      let ?z = "if search_discrepancy k (fst (wireSearch_triplet k i s)) then i else last_zero"
      have first: "emits k s ?t [?p]"
        using emits_search_next [OF srp, of s i] by (simp only: p)
      have rest: "emits k ?t (snd (wireSearch_loop k (i + 1) ?z ?t))
          (map (\<lambda>j. if forced_direction ?t j then 0x80 else 0x00)
             [Suc (unat i)..<Suc (unat i) + ?n])"
        using pass.IH [OF True cont, of ?z] True by (simp add: u8_succ)
      have same: "map (\<lambda>j. if forced_direction ?t j then 0x80 else 0x00 :: u8)
            [Suc (unat i)..<Suc (unat i) + ?n] =
          map (\<lambda>j. if forced_direction s j then 0x80 else 0x00) [Suc (unat i)..<Suc (unat i) + ?n]"
      proof (rule map_cong [OF refl])
        fix j
        assume "j \<in> set [Suc (unat i)..<Suc (unat i) + ?n]"
        then have "unat i < j"
          by (simp del: atLeastLessThanSuc add_Suc)
        then show "(if forced_direction ?t j then 0x80 else 0x00 :: u8) =
            (if forced_direction s j then 0x80 else 0x00)"
          by (simp add: forced_direction_search_next)
      qed
      have "[unat i..<unat i + Suc ?n] = unat i # [Suc (unat i)..<Suc (unat i) + ?n]"
        by (subst upt_rec) simp
      then have "map (\<lambda>j. if forced_direction s j then 0x80 else 0x00 :: u8)
            [unat i..<unat i + Suc ?n] =
          [?p] @ map (\<lambda>j. if forced_direction ?t j then 0x80 else 0x00)
             [Suc (unat i)..<Suc (unat i) + ?n]"
        by (simp only: same) simp
      moreover have "emits k s (snd (wireSearch_loop k (i + 1) ?z ?t))
          ([?p] @ map (\<lambda>j. if forced_direction ?t j then 0x80 else 0x00)
             [Suc (unat i)..<Suc (unat i) + ?n])"
        using first rest by (rule emits_trans)
      ultimately show ?thesis
        using True cont by (simp add: wireSearch_loop_step wireSearch_statuses_step)
    qed
  qed
qed

lemma emits_new_events:
  assumes "emits k s s' ps"
  shows "history s' = history s @ new_events s s'" and "triplet_payloads k (new_events s s') = ps"
proof -
  from assms obtain evs where evs: "history s' = history s @ evs"
    and tp: "\<forall>rest. triplet_payloads k (evs @ rest) = ps @ triplet_payloads k rest"
    unfolding emits_def by blast
  from evs have new: "new_events s s' = evs"
    by (simp add: new_events_def)
  with evs show "history s' = history s @ new_events s s'"
    by simp
  from tp [rule_format, of "[]"] new show "triplet_payloads k (new_events s s') = ps"
    by simp
qed

lemma forced_direction_bus_progress:
  "bus_progress s t \<Longrightarrow> forced_direction t = forced_direction s"
  by (simp add: forced_direction_def bus_progress_def fun_eq_iff)

lemma emits_wireSearch:
  assumes "DS2482_COMMAND_SRP k \<noteq> DS2482_COMMAND_TRIPLET k"
    and "DS2482_COMMAND_WRITECONFIG k \<noteq> DS2482_COMMAND_TRIPLET k"
    and "DS2482_COMMAND_WRITEBYTE k \<noteq> DS2482_COMMAND_TRIPLET k"
  shows "emits k s (snd (snd (wireSearch k address s)))
     (if searchLastDeviceFlag s \<noteq> 0 \<or> fst (wireReset k s) = 0 then []
      else map (\<lambda>j. if forced_direction s j then 0x80 else 0x00)
             [0..<length (wireSearch_statuses k 0 (search_entry k s))])"
proof -
  let ?e = "search_entry k s"
  let ?l = "wireSearch_loop k 0 0 ?e"
  let ?ps = "map (\<lambda>j. if forced_direction s j then 0x80 else 0x00 :: u8)
      [0..<length (wireSearch_statuses k 0 ?e)]"
  have "emits k ?e (snd ?l) ?ps"
    using emits_loop [OF assms(1), of ?e 0 0]
    by (simp add: forced_direction_bus_progress [OF bus_progress_search_entry])
  with emits_search_entry [OF assms, of s] have loop: "emits k s (snd ?l) ?ps"
    by (rule emits_silent)
  have "emits k s (snd ?l\<lparr>searchLastDiscrepancy := z, searchLastDeviceFlag := 1\<rparr>) ?ps"
    "emits k s (snd ?l\<lparr>searchLastDiscrepancy := z\<rparr>) ?ps" for z
    using loop by (simp_all add: emits_def history_def)
  with loop emits_wireReset [OF assms(1,2), of s] show ?thesis
    by (simp add: wireSearch_cases emits_refl split: option.split)
qed

text \<open>
  C3. The triplet commands that a call of \<^verbatim>\<open>wireSearch\<close> puts on the bus are those of
  bit 0, bit 1, ... in this order, at most 64 of them, all 64 when the call returns 1, one
  for each status captured, and none when the call returns early. The payload of the
  command of bit \<open>j\<close> is 0x80 when the forced direction is 1 and 0x00 when it is 0, where
  the forced direction is the bit \<open>j\<close> that \<^verbatim>\<open>searchAddress\<close> held before the call if \<open>j\<close> is less
  than \<^verbatim>\<open>searchLastDiscrepancy\<close>, 1 if \<open>j\<close> equals it, and 0 otherwise. The command codes are
  parameters here: the triplet code is taken to differ from the three other codes that
  a search sends with a byte after them.
\<close>

theorem wireSearch_forced_directions:
  fixes k :: ds2482_defs and address :: "u8 list" and s :: machine
  defines "s' \<equiv> snd (snd (wireSearch k address s))"
  defines "payloads \<equiv> triplet_payloads k (new_events s s')"
  assumes "DS2482_COMMAND_SRP k \<noteq> DS2482_COMMAND_TRIPLET k"
    and "DS2482_COMMAND_WRITECONFIG k \<noteq> DS2482_COMMAND_TRIPLET k"
    and "DS2482_COMMAND_WRITEBYTE k \<noteq> DS2482_COMMAND_TRIPLET k"
  shows "history s' = history s @ new_events s s' \<and>
    payloads = map (\<lambda>j. if forced_direction s j then 0x80 else 0x00) [0..<length payloads] \<and>
    length payloads \<le> 64 \<and>
    (fst (wireSearch k address s) \<noteq> 0 \<longrightarrow> length payloads = 64) \<and>
    (searchLastDeviceFlag s \<noteq> 0 \<or> fst (wireReset k s) = 0 \<longrightarrow> payloads = []) \<and>
    (searchLastDeviceFlag s = 0 \<and> fst (wireReset k s) \<noteq> 0 \<longrightarrow>
       length payloads = length (wireSearch_statuses k 0 (search_entry k s)) \<and> payloads \<noteq> [])"
proof -
  let ?sts = "wireSearch_statuses k 0 (search_entry k s)"
  let ?ps = "if searchLastDeviceFlag s \<noteq> 0 \<or> fst (wireReset k s) = 0 then []
      else map (\<lambda>j. if forced_direction s j then 0x80 else 0x00 :: u8) [0..<length ?sts]"
  have e: "emits k s s' ?ps"
    unfolding s'_def by (rule emits_wireSearch [OF assms(3-5)])
  have hist: "history s' = history s @ new_events s s'"
    using e by (rule emits_new_events)
  have ps: "payloads = ?ps"
    unfolding payloads_def using e by (rule emits_new_events)
  have len: "length ?sts \<le> 64"
    using wireSearch_statuses_length [of k 0 "search_entry k s"] by simp
  have ne: "?sts \<noteq> []"
    by (rule wireSearch_statuses_nonempty) simp
  have full: "length ?sts = 64" if "fst (wireSearch k address s) \<noteq> 0"
  proof -
    from that have "fst (wireSearch_loop k 0 0 (search_entry k s)) \<noteq> None"
      by (auto simp add: wireSearch_cases split: if_splits option.splits)
    then show ?thesis
      using wireSearch_loop_completed [of k 0 0 "search_entry k s"] by simp
  qed
  have none: "fst (wireSearch k address s) = 0"
    if "searchLastDeviceFlag s \<noteq> 0 \<or> fst (wireReset k s) = 0"
    using that by (auto simp add: wireSearch_cases)
  show ?thesis
    using hist len ne full none by (auto simp add: ps)
qed

lemma searching_statuses:
  "wireSearch_statuses datasheet 0 (search_entry datasheet searching) = [0xA0, 0x00, 0x80, 0x60]"
  by (simp add: search_defs searching_def cong: let_value_cong)

text \<open>
  A run of C3: four triplet commands, with the directions 1 (the bit recorded), 0 (the
  bit recorded), 1 (the last discrepancy) and 0 (beyond it).
\<close>

theorem wireSearch_forced_directions_witness:
  "DS2482_COMMAND_SRP datasheet \<noteq> DS2482_COMMAND_TRIPLET datasheet \<and>
   DS2482_COMMAND_WRITECONFIG datasheet \<noteq> DS2482_COMMAND_TRIPLET datasheet \<and>
   DS2482_COMMAND_WRITEBYTE datasheet \<noteq> DS2482_COMMAND_TRIPLET datasheet \<and>
   searchLastDiscrepancy searching = 2 \<and> searchAddress searching = [0x01, 0, 0, 0, 0, 0, 0, 0] \<and>
   map (forced_direction searching) [0, 1, 2, 3] = [True, False, True, False] \<and>
   triplet_payloads datasheet
     (new_events searching (snd (snd (wireSearch datasheet [1, 2, 3, 4, 5, 6, 7, 8] searching)))) =
     [0x80, 0x00, 0x80, 0x00]"
proof -
  have codes: "DS2482_COMMAND_SRP datasheet \<noteq> DS2482_COMMAND_TRIPLET datasheet"
    "DS2482_COMMAND_WRITECONFIG datasheet \<noteq> DS2482_COMMAND_TRIPLET datasheet"
    "DS2482_COMMAND_WRITEBYTE datasheet \<noteq> DS2482_COMMAND_TRIPLET datasheet"
    by (simp_all add: datasheet_def)
  have flag: "searchLastDeviceFlag searching = 0"
    by (simp add: searching_def powered_up_def)
  have present: "fst (wireReset datasheet searching) \<noteq> 0"
    by (simp add: search_defs searching_def cong: let_value_cong)
  have forced: "map (forced_direction searching) [0, 1, 2, 3] = [True, False, True, False]"
    by (simp add: forced_direction_def searching_def powered_up_def rom_bit_def)
  have upt: "[0..<4] = [0, 1, 2, 3]"
    by (simp add: upt_rec)
  let ?P = "triplet_payloads datasheet
     (new_events searching (snd (snd (wireSearch datasheet [1, 2, 3, 4, 5, 6, 7, 8] searching))))"
  note pass = wireSearch_forced_directions [OF codes, of "[1, 2, 3, 4, 5, 6, 7, 8]" searching]
  have "length ?P = length (wireSearch_statuses datasheet 0 (search_entry datasheet searching))"
    using pass flag present by blast
  then have "length ?P = 4"
    by (simp only: searching_statuses) simp
  with pass [THEN conjunct2, THEN conjunct1]
  have "?P = map (\<lambda>j. if forced_direction searching j then 0x80 else 0x00) [0, 1, 2, 3]"
    by (simp only: upt)
  with forced have "?P = [0x80, 0x00, 0x80, 0x00]"
    by simp
  moreover have "searchLastDiscrepancy searching = 2"
    "searchAddress searching = [0x01, 0, 0, 0, 0, 0, 0, 0]"
    by (simp_all add: searching_def powered_up_def)
  ultimately show ?thesis
    using codes forced by simp
qed

subsection \<open>The checksum\<close>

lemma crc8_bits_xor:
  "c1 XOR b1 = c2 XOR b2 \<Longrightarrow>
   crc8_bits n c1 b1 XOR drop_bit n b1 = crc8_bits n c2 b2 XOR drop_bit n b2"
proof (induction n arbitrary: c1 b1 c2 b2)
  case 0
  then show ?case by simp
next
  case (Suc n)
  let ?m = "(c1 XOR b1) AND 1"
  let ?c1 = "if ?m \<noteq> 0 then drop_bit 1 c1 XOR 0x8C else drop_bit 1 c1"
  let ?c2 = "if ?m \<noteq> 0 then drop_bit 1 c2 XOR 0x8C else drop_bit 1 c2"
  have e: "drop_bit 1 c1 XOR drop_bit 1 b1 = drop_bit 1 c2 XOR drop_bit 1 b2"
    using Suc.prems by (metis drop_bit_xor)
  have "?c1 XOR drop_bit 1 b1 = ?c2 XOR drop_bit 1 b2"
  proof (cases "?m \<noteq> 0")
    case True
    have "(drop_bit 1 c1 XOR 0x8C) XOR drop_bit 1 b1 = (drop_bit 1 c1 XOR drop_bit 1 b1) XOR 0x8C"
      by (simp add: xor.assoc xor.commute)
    also have "\<dots> = (drop_bit 1 c2 XOR drop_bit 1 b2) XOR 0x8C"
      by (simp only: e)
    also have "\<dots> = (drop_bit 1 c2 XOR 0x8C) XOR drop_bit 1 b2"
      by (simp add: xor.assoc xor.commute)
    finally show ?thesis using True by simp
  next
    case False
    then show ?thesis using e by simp
  qed
  then have "crc8_bits n ?c1 (drop_bit 1 b1) XOR drop_bit n (drop_bit 1 b1) =
             crc8_bits n ?c2 (drop_bit 1 b2) XOR drop_bit n (drop_bit 1 b2)"
    by (rule Suc.IH)
  then show ?case
    using Suc.prems by (auto simp add: Let_def drop_bit_drop_bit split: if_splits)
qed

lemma drop_bit_8_byte: "drop_bit 8 (b :: u8) = 0"
  by (rule bit_word_eqI) (auto simp add: bit_simps dest: bit_imp_le_length)

lemma crc8_bits_fold: "crc8_bits 8 crc b = crc8_bits 8 0 (crc XOR b)"
  using crc8_bits_xor [of crc b 0 "crc XOR b" 8] by (simp add: drop_bit_8_byte)


lemma crc8_bits_8:
  "crc8_bits 8 crc b = crc8_bits (Suc (Suc (Suc (Suc (Suc (Suc (Suc (Suc 0)))))))) crc b"
proof -
  have "(8::nat) = Suc (Suc (Suc (Suc (Suc (Suc (Suc (Suc 0)))))))" by simp
  then show ?thesis by (simp only:)
qed

lemma dscrc_row_0:
  "map (crc8_bits 8 0)
     [0x00, 0x01, 0x02, 0x03, 0x04, 0x05, 0x06, 0x07, 0x08, 0x09, 0x0A, 0x0B, 0x0C, 0x0D, 0x0E, 0x0F, 0x10, 0x11, 0x12, 0x13, 0x14, 0x15, 0x16, 0x17, 0x18, 0x19, 0x1A, 0x1B, 0x1C, 0x1D, 0x1E, 0x1F] =
     [0x00, 0x5E, 0xBC, 0xE2, 0x61, 0x3F, 0xDD, 0x83, 0xC2, 0x9C, 0x7E, 0x20, 0xA3, 0xFD, 0x1F, 0x41, 0x9D, 0xC3, 0x21, 0x7F, 0xFC, 0xA2, 0x40, 0x1E, 0x5F, 0x01, 0xE3, 0xBD, 0x3E, 0x60, 0x82, 0xDC]"
  by (simp add: crc8_bits_8 Let_def)

lemma dscrc_row_1:
  "map (crc8_bits 8 0)
     [0x20, 0x21, 0x22, 0x23, 0x24, 0x25, 0x26, 0x27, 0x28, 0x29, 0x2A, 0x2B, 0x2C, 0x2D, 0x2E, 0x2F, 0x30, 0x31, 0x32, 0x33, 0x34, 0x35, 0x36, 0x37, 0x38, 0x39, 0x3A, 0x3B, 0x3C, 0x3D, 0x3E, 0x3F] =
     [0x23, 0x7D, 0x9F, 0xC1, 0x42, 0x1C, 0xFE, 0xA0, 0xE1, 0xBF, 0x5D, 0x03, 0x80, 0xDE, 0x3C, 0x62, 0xBE, 0xE0, 0x02, 0x5C, 0xDF, 0x81, 0x63, 0x3D, 0x7C, 0x22, 0xC0, 0x9E, 0x1D, 0x43, 0xA1, 0xFF]"
  by (simp add: crc8_bits_8 Let_def)

lemma dscrc_row_2:
  "map (crc8_bits 8 0)
     [0x40, 0x41, 0x42, 0x43, 0x44, 0x45, 0x46, 0x47, 0x48, 0x49, 0x4A, 0x4B, 0x4C, 0x4D, 0x4E, 0x4F, 0x50, 0x51, 0x52, 0x53, 0x54, 0x55, 0x56, 0x57, 0x58, 0x59, 0x5A, 0x5B, 0x5C, 0x5D, 0x5E, 0x5F] =
     [0x46, 0x18, 0xFA, 0xA4, 0x27, 0x79, 0x9B, 0xC5, 0x84, 0xDA, 0x38, 0x66, 0xE5, 0xBB, 0x59, 0x07, 0xDB, 0x85, 0x67, 0x39, 0xBA, 0xE4, 0x06, 0x58, 0x19, 0x47, 0xA5, 0xFB, 0x78, 0x26, 0xC4, 0x9A]"
  by (simp add: crc8_bits_8 Let_def)

lemma dscrc_row_3:
  "map (crc8_bits 8 0)
     [0x60, 0x61, 0x62, 0x63, 0x64, 0x65, 0x66, 0x67, 0x68, 0x69, 0x6A, 0x6B, 0x6C, 0x6D, 0x6E, 0x6F, 0x70, 0x71, 0x72, 0x73, 0x74, 0x75, 0x76, 0x77, 0x78, 0x79, 0x7A, 0x7B, 0x7C, 0x7D, 0x7E, 0x7F] =
     [0x65, 0x3B, 0xD9, 0x87, 0x04, 0x5A, 0xB8, 0xE6, 0xA7, 0xF9, 0x1B, 0x45, 0xC6, 0x98, 0x7A, 0x24, 0xF8, 0xA6, 0x44, 0x1A, 0x99, 0xC7, 0x25, 0x7B, 0x3A, 0x64, 0x86, 0xD8, 0x5B, 0x05, 0xE7, 0xB9]"
  by (simp add: crc8_bits_8 Let_def)

lemma dscrc_row_4:
  "map (crc8_bits 8 0)
     [0x80, 0x81, 0x82, 0x83, 0x84, 0x85, 0x86, 0x87, 0x88, 0x89, 0x8A, 0x8B, 0x8C, 0x8D, 0x8E, 0x8F, 0x90, 0x91, 0x92, 0x93, 0x94, 0x95, 0x96, 0x97, 0x98, 0x99, 0x9A, 0x9B, 0x9C, 0x9D, 0x9E, 0x9F] =
     [0x8C, 0xD2, 0x30, 0x6E, 0xED, 0xB3, 0x51, 0x0F, 0x4E, 0x10, 0xF2, 0xAC, 0x2F, 0x71, 0x93, 0xCD, 0x11, 0x4F, 0xAD, 0xF3, 0x70, 0x2E, 0xCC, 0x92, 0xD3, 0x8D, 0x6F, 0x31, 0xB2, 0xEC, 0x0E, 0x50]"
  by (simp add: crc8_bits_8 Let_def)

lemma dscrc_row_5:
  "map (crc8_bits 8 0)
     [0xA0, 0xA1, 0xA2, 0xA3, 0xA4, 0xA5, 0xA6, 0xA7, 0xA8, 0xA9, 0xAA, 0xAB, 0xAC, 0xAD, 0xAE, 0xAF, 0xB0, 0xB1, 0xB2, 0xB3, 0xB4, 0xB5, 0xB6, 0xB7, 0xB8, 0xB9, 0xBA, 0xBB, 0xBC, 0xBD, 0xBE, 0xBF] =
     [0xAF, 0xF1, 0x13, 0x4D, 0xCE, 0x90, 0x72, 0x2C, 0x6D, 0x33, 0xD1, 0x8F, 0x0C, 0x52, 0xB0, 0xEE, 0x32, 0x6C, 0x8E, 0xD0, 0x53, 0x0D, 0xEF, 0xB1, 0xF0, 0xAE, 0x4C, 0x12, 0x91, 0xCF, 0x2D, 0x73]"
  by (simp add: crc8_bits_8 Let_def)

lemma dscrc_row_6:
  "map (crc8_bits 8 0)
     [0xC0, 0xC1, 0xC2, 0xC3, 0xC4, 0xC5, 0xC6, 0xC7, 0xC8, 0xC9, 0xCA, 0xCB, 0xCC, 0xCD, 0xCE, 0xCF, 0xD0, 0xD1, 0xD2, 0xD3, 0xD4, 0xD5, 0xD6, 0xD7, 0xD8, 0xD9, 0xDA, 0xDB, 0xDC, 0xDD, 0xDE, 0xDF] =
     [0xCA, 0x94, 0x76, 0x28, 0xAB, 0xF5, 0x17, 0x49, 0x08, 0x56, 0xB4, 0xEA, 0x69, 0x37, 0xD5, 0x8B, 0x57, 0x09, 0xEB, 0xB5, 0x36, 0x68, 0x8A, 0xD4, 0x95, 0xCB, 0x29, 0x77, 0xF4, 0xAA, 0x48, 0x16]"
  by (simp add: crc8_bits_8 Let_def)

lemma dscrc_row_7:
  "map (crc8_bits 8 0)
     [0xE0, 0xE1, 0xE2, 0xE3, 0xE4, 0xE5, 0xE6, 0xE7, 0xE8, 0xE9, 0xEA, 0xEB, 0xEC, 0xED, 0xEE, 0xEF, 0xF0, 0xF1, 0xF2, 0xF3, 0xF4, 0xF5, 0xF6, 0xF7, 0xF8, 0xF9, 0xFA, 0xFB, 0xFC, 0xFD, 0xFE, 0xFF] =
     [0xE9, 0xB7, 0x55, 0x0B, 0x88, 0xD6, 0x34, 0x6A, 0x2B, 0x75, 0x97, 0xC9, 0x4A, 0x14, 0xF6, 0xA8, 0x74, 0x2A, 0xC8, 0x96, 0x15, 0x4B, 0xA9, 0xF7, 0xB6, 0xE8, 0x0A, 0x54, 0xD7, 0x89, 0x6B, 0x35]"
  by (simp add: crc8_bits_8 Let_def)

lemma bytes_upt: "map of_nat [0..<256] = ([0x00, 0x01, 0x02, 0x03, 0x04, 0x05, 0x06, 0x07, 0x08, 0x09, 0x0A, 0x0B, 0x0C, 0x0D, 0x0E, 0x0F, 0x10, 0x11, 0x12, 0x13, 0x14, 0x15, 0x16, 0x17, 0x18, 0x19, 0x1A, 0x1B, 0x1C, 0x1D, 0x1E, 0x1F, 0x20, 0x21, 0x22, 0x23, 0x24, 0x25, 0x26, 0x27, 0x28, 0x29, 0x2A, 0x2B, 0x2C, 0x2D, 0x2E, 0x2F, 0x30, 0x31, 0x32, 0x33, 0x34, 0x35, 0x36, 0x37, 0x38, 0x39, 0x3A, 0x3B, 0x3C, 0x3D, 0x3E, 0x3F, 0x40, 0x41, 0x42, 0x43, 0x44, 0x45, 0x46, 0x47, 0x48, 0x49, 0x4A, 0x4B, 0x4C, 0x4D, 0x4E, 0x4F, 0x50, 0x51, 0x52, 0x53, 0x54, 0x55, 0x56, 0x57, 0x58, 0x59, 0x5A, 0x5B, 0x5C, 0x5D, 0x5E, 0x5F, 0x60, 0x61, 0x62, 0x63, 0x64, 0x65, 0x66, 0x67, 0x68, 0x69, 0x6A, 0x6B, 0x6C, 0x6D, 0x6E, 0x6F, 0x70, 0x71, 0x72, 0x73, 0x74, 0x75, 0x76, 0x77, 0x78, 0x79, 0x7A, 0x7B, 0x7C, 0x7D, 0x7E, 0x7F, 0x80, 0x81, 0x82, 0x83, 0x84, 0x85, 0x86, 0x87, 0x88, 0x89, 0x8A, 0x8B, 0x8C, 0x8D, 0x8E, 0x8F, 0x90, 0x91, 0x92, 0x93, 0x94, 0x95, 0x96, 0x97, 0x98, 0x99, 0x9A, 0x9B, 0x9C, 0x9D, 0x9E, 0x9F, 0xA0, 0xA1, 0xA2, 0xA3, 0xA4, 0xA5, 0xA6, 0xA7, 0xA8, 0xA9, 0xAA, 0xAB, 0xAC, 0xAD, 0xAE, 0xAF, 0xB0, 0xB1, 0xB2, 0xB3, 0xB4, 0xB5, 0xB6, 0xB7, 0xB8, 0xB9, 0xBA, 0xBB, 0xBC, 0xBD, 0xBE, 0xBF, 0xC0, 0xC1, 0xC2, 0xC3, 0xC4, 0xC5, 0xC6, 0xC7, 0xC8, 0xC9, 0xCA, 0xCB, 0xCC, 0xCD, 0xCE, 0xCF, 0xD0, 0xD1, 0xD2, 0xD3, 0xD4, 0xD5, 0xD6, 0xD7, 0xD8, 0xD9, 0xDA, 0xDB, 0xDC, 0xDD, 0xDE, 0xDF, 0xE0, 0xE1, 0xE2, 0xE3, 0xE4, 0xE5, 0xE6, 0xE7, 0xE8, 0xE9, 0xEA, 0xEB, 0xEC, 0xED, 0xEE, 0xEF, 0xF0, 0xF1, 0xF2, 0xF3, 0xF4, 0xF5, 0xF6, 0xF7, 0xF8, 0xF9, 0xFA, 0xFB, 0xFC, 0xFD, 0xFE, 0xFF] :: u8 list)"
  by (simp add: upt_rec)

lemma dscrc_table_bits: "dscrc_table = map (\<lambda>n. crc8_bits 8 0 (of_nat n)) [0..<256]"
proof -
  have "map (crc8_bits 8 0)
      ([0x00, 0x01, 0x02, 0x03, 0x04, 0x05, 0x06, 0x07, 0x08, 0x09, 0x0A, 0x0B, 0x0C, 0x0D, 0x0E, 0x0F, 0x10, 0x11, 0x12, 0x13, 0x14, 0x15, 0x16, 0x17, 0x18, 0x19, 0x1A, 0x1B, 0x1C, 0x1D, 0x1E, 0x1F] @
       [0x20, 0x21, 0x22, 0x23, 0x24, 0x25, 0x26, 0x27, 0x28, 0x29, 0x2A, 0x2B, 0x2C, 0x2D, 0x2E, 0x2F, 0x30, 0x31, 0x32, 0x33, 0x34, 0x35, 0x36, 0x37, 0x38, 0x39, 0x3A, 0x3B, 0x3C, 0x3D, 0x3E, 0x3F] @
       [0x40, 0x41, 0x42, 0x43, 0x44, 0x45, 0x46, 0x47, 0x48, 0x49, 0x4A, 0x4B, 0x4C, 0x4D, 0x4E, 0x4F, 0x50, 0x51, 0x52, 0x53, 0x54, 0x55, 0x56, 0x57, 0x58, 0x59, 0x5A, 0x5B, 0x5C, 0x5D, 0x5E, 0x5F] @
       [0x60, 0x61, 0x62, 0x63, 0x64, 0x65, 0x66, 0x67, 0x68, 0x69, 0x6A, 0x6B, 0x6C, 0x6D, 0x6E, 0x6F, 0x70, 0x71, 0x72, 0x73, 0x74, 0x75, 0x76, 0x77, 0x78, 0x79, 0x7A, 0x7B, 0x7C, 0x7D, 0x7E, 0x7F] @
       [0x80, 0x81, 0x82, 0x83, 0x84, 0x85, 0x86, 0x87, 0x88, 0x89, 0x8A, 0x8B, 0x8C, 0x8D, 0x8E, 0x8F, 0x90, 0x91, 0x92, 0x93, 0x94, 0x95, 0x96, 0x97, 0x98, 0x99, 0x9A, 0x9B, 0x9C, 0x9D, 0x9E, 0x9F] @
       [0xA0, 0xA1, 0xA2, 0xA3, 0xA4, 0xA5, 0xA6, 0xA7, 0xA8, 0xA9, 0xAA, 0xAB, 0xAC, 0xAD, 0xAE, 0xAF, 0xB0, 0xB1, 0xB2, 0xB3, 0xB4, 0xB5, 0xB6, 0xB7, 0xB8, 0xB9, 0xBA, 0xBB, 0xBC, 0xBD, 0xBE, 0xBF] @
       [0xC0, 0xC1, 0xC2, 0xC3, 0xC4, 0xC5, 0xC6, 0xC7, 0xC8, 0xC9, 0xCA, 0xCB, 0xCC, 0xCD, 0xCE, 0xCF, 0xD0, 0xD1, 0xD2, 0xD3, 0xD4, 0xD5, 0xD6, 0xD7, 0xD8, 0xD9, 0xDA, 0xDB, 0xDC, 0xDD, 0xDE, 0xDF] @
       [0xE0, 0xE1, 0xE2, 0xE3, 0xE4, 0xE5, 0xE6, 0xE7, 0xE8, 0xE9, 0xEA, 0xEB, 0xEC, 0xED, 0xEE, 0xEF, 0xF0, 0xF1, 0xF2, 0xF3, 0xF4, 0xF5, 0xF6, 0xF7, 0xF8, 0xF9, 0xFA, 0xFB, 0xFC, 0xFD, 0xFE, 0xFF]) =
      [0x00, 0x5E, 0xBC, 0xE2, 0x61, 0x3F, 0xDD, 0x83, 0xC2, 0x9C, 0x7E, 0x20, 0xA3, 0xFD, 0x1F, 0x41, 0x9D, 0xC3, 0x21, 0x7F, 0xFC, 0xA2, 0x40, 0x1E, 0x5F, 0x01, 0xE3, 0xBD, 0x3E, 0x60, 0x82, 0xDC] @
       [0x23, 0x7D, 0x9F, 0xC1, 0x42, 0x1C, 0xFE, 0xA0, 0xE1, 0xBF, 0x5D, 0x03, 0x80, 0xDE, 0x3C, 0x62, 0xBE, 0xE0, 0x02, 0x5C, 0xDF, 0x81, 0x63, 0x3D, 0x7C, 0x22, 0xC0, 0x9E, 0x1D, 0x43, 0xA1, 0xFF] @
       [0x46, 0x18, 0xFA, 0xA4, 0x27, 0x79, 0x9B, 0xC5, 0x84, 0xDA, 0x38, 0x66, 0xE5, 0xBB, 0x59, 0x07, 0xDB, 0x85, 0x67, 0x39, 0xBA, 0xE4, 0x06, 0x58, 0x19, 0x47, 0xA5, 0xFB, 0x78, 0x26, 0xC4, 0x9A] @
       [0x65, 0x3B, 0xD9, 0x87, 0x04, 0x5A, 0xB8, 0xE6, 0xA7, 0xF9, 0x1B, 0x45, 0xC6, 0x98, 0x7A, 0x24, 0xF8, 0xA6, 0x44, 0x1A, 0x99, 0xC7, 0x25, 0x7B, 0x3A, 0x64, 0x86, 0xD8, 0x5B, 0x05, 0xE7, 0xB9] @
       [0x8C, 0xD2, 0x30, 0x6E, 0xED, 0xB3, 0x51, 0x0F, 0x4E, 0x10, 0xF2, 0xAC, 0x2F, 0x71, 0x93, 0xCD, 0x11, 0x4F, 0xAD, 0xF3, 0x70, 0x2E, 0xCC, 0x92, 0xD3, 0x8D, 0x6F, 0x31, 0xB2, 0xEC, 0x0E, 0x50] @
       [0xAF, 0xF1, 0x13, 0x4D, 0xCE, 0x90, 0x72, 0x2C, 0x6D, 0x33, 0xD1, 0x8F, 0x0C, 0x52, 0xB0, 0xEE, 0x32, 0x6C, 0x8E, 0xD0, 0x53, 0x0D, 0xEF, 0xB1, 0xF0, 0xAE, 0x4C, 0x12, 0x91, 0xCF, 0x2D, 0x73] @
       [0xCA, 0x94, 0x76, 0x28, 0xAB, 0xF5, 0x17, 0x49, 0x08, 0x56, 0xB4, 0xEA, 0x69, 0x37, 0xD5, 0x8B, 0x57, 0x09, 0xEB, 0xB5, 0x36, 0x68, 0x8A, 0xD4, 0x95, 0xCB, 0x29, 0x77, 0xF4, 0xAA, 0x48, 0x16] @
       [0xE9, 0xB7, 0x55, 0x0B, 0x88, 0xD6, 0x34, 0x6A, 0x2B, 0x75, 0x97, 0xC9, 0x4A, 0x14, 0xF6, 0xA8, 0x74, 0x2A, 0xC8, 0x96, 0x15, 0x4B, 0xA9, 0xF7, 0xB6, 0xE8, 0x0A, 0x54, 0xD7, 0x89, 0x6B, 0x35]"
    by (simp only: map_append dscrc_row_0 dscrc_row_1 dscrc_row_2 dscrc_row_3 dscrc_row_4 dscrc_row_5 dscrc_row_6 dscrc_row_7)
  then have "map (crc8_bits 8 0) (map of_nat [0..<256]) = dscrc_table"
    unfolding bytes_upt dscrc_table_def by (simp only: append.simps)
  then show ?thesis by (simp add: comp_def)
qed

lemma dscrc_table_lookup: "dscrc_table ! unat (x :: u8) = crc8_bits 8 0 x"
proof -
  have "unat x < 256"
    using unsigned_less [of x, where ?'a = nat] by simp
  then show ?thesis
    by (simp add: dscrc_table_bits del: upt_Suc)
qed

lemma crc8_loops_agree: "crc8_table_loop addr len crc = crc8_direct_loop addr len crc"
proof (induction addr len crc rule: crc8_table_loop.induct)
  case (3 b addr len crc)
  then show ?case
    by (simp add: dscrc_table_lookup crc8_bits_fold [of crc b])
qed simp_all

text \<open>
  C4. For every array \<open>addr\<close> and every length \<open>len\<close>, the body of \<^verbatim>\<open>crc8\<close> that looks
  \<^verbatim>\<open>dscrc_table\<close> up and the body that shifts bit by bit (accumulator 0 at the start,
  least significant bit first, feedback 0x8C) give the same result; both read outside
  the array for the same \<open>len\<close>.
\<close>

theorem crc8_table_direct_agree: "crc8_table addr len = crc8_direct addr len"
  by (simp add: crc8_table_def crc8_direct_def crc8_loops_agree)

lemma crc8_direct_loop_Cons:
  "crc8_direct_loop (b # addr) len crc =
     (if len = 0 then Some crc else crc8_direct_loop addr (len - 1) (crc8_bits 8 crc b))"
  by (cases len) simp_all

text \<open>
  A run of C4 on the ROM code 02 1C B8 01 00 00 00 with checksum A2.
\<close>

theorem crc8_table_direct_agree_witness:
  "crc8_table [0x02, 0x1C, 0xB8, 0x01, 0x00, 0x00, 0x00] 7 = Some 0xA2 \<and>
   crc8_direct [0x02, 0x1C, 0xB8, 0x01, 0x00, 0x00, 0x00] 7 = Some 0xA2"
  using crc8_table_direct_agree [of "[0x02, 0x1C, 0xB8, 0x01, 0x00, 0x00, 0x00]" 7]
  by (simp add: crc8_direct_def crc8_direct_loop_Cons crc8_bits_8 Let_def)

end
